theory Spec2Isabelle
  imports Main "HOL-Library.Word"
begin

unbundle bit_operations_syntax

section \<open>Data model of the single-encoder sketch\<close>

text \<open>
  The sketch \<^verbatim>\<open>ESP32_BLE_EncoderControl.ino\<close> keeps its whole state in global
  variables (and in one function-local \<^verbatim>\<open>static\<close>). They are collected in the record
  \<open>state\<close> below, one field per variable, under the variable's own name.

  \<^item> \<^verbatim>\<open>unsigned long\<close> is 32 bits wide on the ESP32-C3: every \<^verbatim>\<open>millis()\<close> reading
    and every stored timestamp is a \<open>32 word\<close>, and the subtraction \<^verbatim>\<open>now - last\<close>
    wraps around exactly as the unsigned subtraction of the source does.
  \<^item> \<^verbatim>\<open>int\<close> is 32 bits wide as well: \<open>encoderPos\<close> and \<open>lastReportedPos\<close> are
    \<open>32 word\<close>s that are compared through \<open>sint\<close> (two's complement), and
    \<^verbatim>\<open>encoderPos++\<close> is the wrapping \<open>+ 1\<close> of the hardware.
  \<^item> \<^verbatim>\<open>static uint8_t old_AB\<close> of \<^verbatim>\<open>encoderISR\<close> is an \<open>8 word\<close> field of the state.
  \<^item> Every value that a function reads from its environment (\<^verbatim>\<open>millis()\<close>,
    \<^verbatim>\<open>digitalRead\<close>, \<^verbatim>\<open>bleKeyboard.isConnected()\<close>) is a parameter of the model
    of this function, one parameter per read.
  \<^item> Every outward action (\<^verbatim>\<open>Serial.println\<close>, \<^verbatim>\<open>FastLED.show\<close>,
    \<^verbatim>\<open>bleKeyboard.begin\<close>, \<^verbatim>\<open>bleKeyboard.write\<close>, \<^verbatim>\<open>delay\<close>) is an element of
    the list of effects that the model returns next to the new state, in program
    order.
  \<^item> An interrupt handler runs between two loop iterations, with one exception:
    \<^verbatim>\<open>handleEncoderChange\<close> reads the volatile \<^verbatim>\<open>encoderPos\<close> three times with the
    encoder interrupts attached, and the invocations of \<open>encoderISR\<close> that come
    between these reads are parameters of its model.

  The key codes and \<^verbatim>\<open>HIGH\<close>/\<^verbatim>\<open>LOW\<close> are constants of the libraries the sketch
  includes; the model keeps their names. The repository's second sketch, for two
  encoders, repeats the same functions once per encoder; the model is of the
  single-encoder sketch.
\<close>

type_synonym millis = "32 word"

datatype ConnectionState = DISCONNECTED | CONNECTING | CONNECTED

datatype ButtonState = BUTTON_UP | BUTTON_DEBOUNCING_DOWN | BUTTON_DOWN | BUTTON_DEBOUNCING_UP

datatype level = LOW | HIGH

datatype key = KEY_RIGHT_ARROW | KEY_LEFT_ARROW | KEY_RETURN

datatype rgb = CRGB nat nat nat

datatype effect = Println string | Show rgb | Begin | Write key | Delay nat

record state =
  connectionState :: ConnectionState
  lastConnectionAttempt :: millis
  wasConnected :: bool
  encoderPos :: "32 word"
  lastReportedPos :: "32 word"
  lastEncoderEvent :: millis
  old_AB :: "8 word"
  buttonState :: ButtonState
  buttonStateChangeTime :: millis
  buttonEventProcessed :: bool
  leds0 :: rgb

definition colorDisconnected :: rgb where "colorDisconnected = CRGB 50 0 0"
definition colorConnecting :: rgb where "colorConnecting = CRGB 50 20 0"
definition colorConnected :: rgb where "colorConnected = CRGB 0 50 0"
definition colorActivity :: rgb where "colorActivity = CRGB 0 0 50"
definition Black :: rgb where "Black = CRGB 0 0 0"

definition RECONNECT_DELAY :: millis where "RECONNECT_DELAY = 5000"
definition encoderDebounceTime :: millis where "encoderDebounceTime = 5"
definition buttonDebounceTime :: millis where "buttonDebounceTime = 50"

text \<open>The initialisers of the global variables (and of the static \<open>old_AB\<close>).\<close>

definition initial :: state where
  "initial = \<lparr> connectionState = DISCONNECTED, lastConnectionAttempt = 0, wasConnected = False,
     encoderPos = 0, lastReportedPos = 0, lastEncoderEvent = 0, old_AB = 0,
     buttonState = BUTTON_UP, buttonStateChangeTime = 0, buttonEventProcessed = True,
     leds0 = Black \<rparr>"

section \<open>Interrupt handlers\<close>

text \<open>
  The two four-way conditions of \<^verbatim>\<open>encoderISR\<close>, named after the comment of the branch
  each one guards.
\<close>

definition clockwise :: "8 word \<Rightarrow> 8 word \<Rightarrow> bool" where
  "clockwise old cur \<longleftrightarrow>
     (old = 0 \<and> cur = 1) \<or> (old = 1 \<and> cur = 3) \<or> (old = 3 \<and> cur = 2) \<or> (old = 2 \<and> cur = 0)"

definition counter_clockwise :: "8 word \<Rightarrow> 8 word \<Rightarrow> bool" where
  "counter_clockwise old cur \<longleftrightarrow>
     (old = 0 \<and> cur = 2) \<or> (old = 2 \<and> cur = 3) \<or> (old = 3 \<and> cur = 1) \<or> (old = 1 \<and> cur = 0)"

text \<open>A legal transition of the decoder: one that either four-way condition matches.\<close>

definition adjacent :: "8 word \<Rightarrow> 8 word \<Rightarrow> bool" where
  "adjacent old cur \<longleftrightarrow> clockwise old cur \<or> counter_clockwise old cur"

text \<open>\<^verbatim>\<open>uint8_t current_AB = (pinA << 1) | pinB\<close>, for the two \<^verbatim>\<open>bool\<close>s read from the pins.\<close>

definition current_AB :: "bool \<Rightarrow> bool \<Rightarrow> 8 word" where
  "current_AB pinA pinB = push_bit 1 (of_bool pinA) OR of_bool pinB"

text \<open>
  \<^verbatim>\<open>encoderISR\<close>: \<open>pinA\<close> and \<open>pinB\<close> are the levels of CLK and DT read first, \<open>now\<close> is
  the \<^verbatim>\<open>millis()\<close> reading. The early \<^verbatim>\<open>return\<close> of the time check leaves everything
  as it was; past it, \<open>old_AB\<close> is overwritten on every path.
\<close>

definition encoderISR :: "bool \<Rightarrow> bool \<Rightarrow> millis \<Rightarrow> state \<Rightarrow> state" where
  "encoderISR pinA pinB now s =
     (if now - lastEncoderEvent s < encoderDebounceTime then s
      else
        let cur = current_AB pinA pinB;
            s' = (if clockwise (old_AB s) cur
                  then s\<lparr>encoderPos := encoderPos s + 1, lastEncoderEvent := now\<rparr>
                  else if counter_clockwise (old_AB s) cur
                  then s\<lparr>encoderPos := encoderPos s - 1, lastEncoderEvent := now\<rparr>
                  else s)
        in s'\<lparr>old_AB := cur\<rparr>)"

text \<open>
  A sample is what one invocation of \<open>encoderISR\<close> reads: the levels of CLK and DT and
  the clock. \<open>replay\<close> feeds a list of samples to the handler, oldest first.
\<close>

type_synonym sample = "bool \<times> bool \<times> millis"

fun replay :: "sample list \<Rightarrow> state \<Rightarrow> state" where
  "replay [] s = s"
| "replay ((pinA, pinB, now) # xs) s = replay xs (encoderISR pinA pinB now s)"

text \<open>\<^verbatim>\<open>buttonISR\<close>: \<open>now\<close> is the \<^verbatim>\<open>millis()\<close> reading, \<open>sw\<close> the level of the button pin.\<close>

definition buttonISR :: "millis \<Rightarrow> level \<Rightarrow> state \<Rightarrow> state" where
  "buttonISR now sw s =
     (case buttonState s of
        BUTTON_UP \<Rightarrow>
          if sw = LOW then s\<lparr>buttonState := BUTTON_DEBOUNCING_DOWN, buttonStateChangeTime := now\<rparr>
          else s
      | BUTTON_DEBOUNCING_DOWN \<Rightarrow> s
      | BUTTON_DOWN \<Rightarrow>
          if sw = HIGH then s\<lparr>buttonState := BUTTON_DEBOUNCING_UP, buttonStateChangeTime := now\<rparr>
          else s
      | BUTTON_DEBOUNCING_UP \<Rightarrow> s)"

section \<open>The cooperative loop\<close>

text \<open>
  \<^verbatim>\<open>setup\<close>, without the configuration of the serial port, the LED driver, the
  pins and the interrupts: the LED is set to red and shown, BLE is started, the
  connection state becomes \<open>CONNECTING\<close> and the retry baseline is the \<^verbatim>\<open>millis()\<close>
  reading \<open>now\<close>.
\<close>

definition sketch_setup :: "millis \<Rightarrow> state \<Rightarrow> state \<times> effect list" where
  "sketch_setup now s =
     (s\<lparr>leds0 := colorDisconnected, connectionState := CONNECTING, lastConnectionAttempt := now\<rparr>,
      [Println ''Starting Enhanced BLE Rotary Encoder Keyboard'', Show colorDisconnected,
       Begin, Println ''Setup complete, waiting for BLE connection...''])"

text \<open>
  \<^verbatim>\<open>updateConnectionState\<close>: \<open>isConnected\<close> is the answer of the link, \<open>t_disc\<close> the
  \<^verbatim>\<open>millis()\<close> reading of the disconnect branch and \<open>now\<close> the reading of the
  reconnection block. The function calls nothing of the link but \<^verbatim>\<open>isConnected()\<close>.
\<close>

definition updateConnectionState :: "bool \<Rightarrow> millis \<Rightarrow> millis \<Rightarrow> state \<Rightarrow> state \<times> effect list" where
  "updateConnectionState isConnected t_disc now s =
     (let (s1, e1) =
            (if isConnected \<and> \<not> wasConnected s
             then (s\<lparr>connectionState := CONNECTED, wasConnected := True\<rparr>,
                   [Println ''BLE connected!''])
             else if \<not> isConnected \<and> wasConnected s
             then (s\<lparr>connectionState := DISCONNECTED, wasConnected := False,
                      lastConnectionAttempt := t_disc\<rparr>,
                   [Println ''BLE disconnected!''])
             else (s, []))
      in if connectionState s1 = DISCONNECTED
         then (if now - lastConnectionAttempt s1 > RECONNECT_DELAY
               then (s1\<lparr>connectionState := CONNECTING, lastConnectionAttempt := now\<rparr>,
                     e1 @ [Println ''Attempting to reconnect BLE...''])
               else (s1, e1))
         else if connectionState s1 = CONNECTING \<and> isConnected
         then (s1\<lparr>connectionState := CONNECTED\<rparr>, e1)
         else (s1, e1))"

text \<open>\<^verbatim>\<open>updateLED\<close>: \<open>now\<close> is the \<^verbatim>\<open>millis()\<close> reading of the blink phase.\<close>

definition updateLED :: "millis \<Rightarrow> state \<Rightarrow> state \<times> effect list" where
  "updateLED now s =
     (let c = (case connectionState s of
                 DISCONNECTED \<Rightarrow> colorDisconnected
               | CONNECTING \<Rightarrow> if (now div 500) mod 2 = 0 then colorConnecting else Black
               | CONNECTED \<Rightarrow> colorConnected)
      in (s\<lparr>leds0 := c\<rparr>, [Show c]))"

text \<open>
  \<^verbatim>\<open>handleEncoderChange\<close> reads \<^verbatim>\<open>encoderPos\<close> three times: in the test
  \<^verbatim>\<open>encoderPos != lastReportedPos\<close>, in the comparison
  \<^verbatim>\<open>encoderPos > lastReportedPos\<close> that chooses the key, and in the assignment
  \<^verbatim>\<open>lastReportedPos = encoderPos\<close>. \<open>before_compare\<close> are the samples that
  \<open>encoderISR\<close> handles between the test and the comparison, \<open>before_assign\<close> those
  it handles between the comparison and the assignment (the key is written in
  between). When the test fails there is no second read, and the lists are not used.
  Nothing later in the iteration reads the variables of the decoder, so an encoder
  interrupt after the assignment is an event after the iteration.
\<close>

definition handleEncoderChange :: "sample list \<Rightarrow> sample list \<Rightarrow> state \<Rightarrow> state \<times> effect list" where
  "handleEncoderChange before_compare before_assign s =
     (if encoderPos s \<noteq> lastReportedPos s
      then
        let s1 = replay before_compare s;
            e = (if sint (encoderPos s1) > sint (lastReportedPos s1)
                 then [Println ''Sending RIGHT key'', Write KEY_RIGHT_ARROW]
                 else [Println ''Sending LEFT key'', Write KEY_LEFT_ARROW]);
            s2 = replay before_assign s1
        in (s2\<lparr>lastReportedPos := encoderPos s2, leds0 := colorConnected\<rparr>,
            [Show colorActivity] @ e @ [Delay 10, Show colorConnected])
      else (s, []))"

text \<open>
  \<^verbatim>\<open>handleButtonEvent\<close>: \<open>now\<close> is the \<^verbatim>\<open>millis()\<close> reading, \<open>sw\<close> the level of the
  button pin at the re-sample.
\<close>

definition handleButtonEvent :: "millis \<Rightarrow> level \<Rightarrow> state \<Rightarrow> state \<times> effect list" where
  "handleButtonEvent now sw s =
     (case buttonState s of
        BUTTON_DEBOUNCING_DOWN \<Rightarrow>
          if now - buttonStateChangeTime s > buttonDebounceTime
          then (if sw = LOW
                then (s\<lparr>buttonState := BUTTON_DOWN, buttonEventProcessed := False\<rparr>,
                      [Println ''Button pressed (debounced)''])
                else (s\<lparr>buttonState := BUTTON_UP\<rparr>, []))
          else (s, [])
      | BUTTON_DEBOUNCING_UP \<Rightarrow>
          if now - buttonStateChangeTime s > buttonDebounceTime
          then (if sw = HIGH
                then (s\<lparr>buttonState := BUTTON_UP\<rparr>, [Println ''Button released (debounced)''])
                else (s\<lparr>buttonState := BUTTON_DOWN\<rparr>, []))
          else (s, [])
      | BUTTON_DOWN \<Rightarrow>
          if connectionState s = CONNECTED \<and> \<not> buttonEventProcessed s
          then (s\<lparr>buttonEventProcessed := True, leds0 := colorConnected\<rparr>,
                [Show colorActivity, Println ''Sending ENTER key'', Write KEY_RETURN,
                 Delay 10, Show colorConnected])
          else (s, [])
      | BUTTON_UP \<Rightarrow> (s, []))"

text \<open>
  What one iteration of \<^verbatim>\<open>loop\<close> takes from its environment: one field per read,
  and the two lists of samples for \<open>handleEncoderChange\<close>.
\<close>

record readings =
  linked :: bool
  millis_disc :: millis
  millis_conn :: millis
  millis_led :: millis
  irq_compare :: "sample list"
  irq_assign :: "sample list"
  millis_btn :: millis
  pin_sw :: level

definition loop :: "readings \<Rightarrow> state \<Rightarrow> state \<times> effect list" where
  "loop r s =
     (let (s1, e1) = updateConnectionState (linked r) (millis_disc r) (millis_conn r) s;
          (s2, e2) = updateLED (millis_led r) s1;
          (s3, e3) = (if connectionState s2 = CONNECTED
                      then handleEncoderChange (irq_compare r) (irq_assign r) s2 else (s2, []));
          (s4, e4) = handleButtonEvent (millis_btn r) (pin_sw r) s3
      in (s4, e1 @ e2 @ e3 @ e4 @ [Delay 5]))"

section \<open>Runs: interrupts interleaved with loop iterations\<close>

datatype event =
    EncoderIRQ bool bool millis
  | ButtonIRQ millis level
  | Tick readings

fun step :: "event \<Rightarrow> state \<Rightarrow> state \<times> effect list" where
  "step (EncoderIRQ pinA pinB now) s = (encoderISR pinA pinB now s, [])"
| "step (ButtonIRQ now sw) s = (buttonISR now sw s, [])"
| "step (Tick r) s = loop r s"

fun run :: "event list \<Rightarrow> state \<Rightarrow> state \<times> effect list" where
  "run [] s = (s, [])"
| "run (ev # evs) s =
     (let (s1, e1) = step ev s; (s2, e2) = run evs s1 in (s2, e1 @ e2))"

text \<open>The keys handed to \<^verbatim>\<open>bleKeyboard.write\<close> among the effects, in order.\<close>

fun keys_of :: "effect list \<Rightarrow> key list" where
  "keys_of [] = []"
| "keys_of (Write k # es) = k # keys_of es"
| "keys_of (e # es) = keys_of es"

section \<open>Sequences of transitions in the words of the specification\<close>

text \<open>
  The specification's table, in its own words: clockwise is the cycle
  \<open>00 \<rightarrow> 01 \<rightarrow> 11 \<rightarrow> 10 \<rightarrow> 00\<close>, counter-clockwise is its reverse.
\<close>

definition gray_cycle :: "(8 word \<times> 8 word) list" where
  "gray_cycle = [(0, 1), (1, 3), (3, 2), (2, 0)]"

definition spec_cw :: "8 word \<Rightarrow> 8 word \<Rightarrow> bool" where
  "spec_cw p q \<longleftrightarrow> (p, q) \<in> set gray_cycle"

definition spec_ccw :: "8 word \<Rightarrow> 8 word \<Rightarrow> bool" where
  "spec_ccw p q \<longleftrightarrow> spec_cw q p"

text \<open>
  A sequence of legal transitions, each accepted: every sample is one step along the
  cycle (in either direction) away from the pin pair before it, and comes at least
  \<open>encoderDebounceTime\<close> after the sample before it. \<open>prev\<close> and \<open>t0\<close> are the pin pair
  and the time the sequence starts from.
\<close>

fun legal_sequence :: "8 word \<Rightarrow> millis \<Rightarrow> sample list \<Rightarrow> bool" where
  "legal_sequence prev t0 [] \<longleftrightarrow> True"
| "legal_sequence prev t0 ((pinA, pinB, now) # xs) \<longleftrightarrow>
     (spec_cw prev (current_AB pinA pinB) \<or> spec_ccw prev (current_AB pinA pinB))
     \<and> encoderDebounceTime \<le> now - t0
     \<and> legal_sequence (current_AB pinA pinB) now xs"

fun cw_count :: "8 word \<Rightarrow> sample list \<Rightarrow> nat" where
  "cw_count prev [] = 0"
| "cw_count prev ((pinA, pinB, now) # xs) =
     (if spec_cw prev (current_AB pinA pinB) then 1 else 0) + cw_count (current_AB pinA pinB) xs"

fun ccw_count :: "8 word \<Rightarrow> sample list \<Rightarrow> nat" where
  "ccw_count prev [] = 0"
| "ccw_count prev ((pinA, pinB, now) # xs) =
     (if spec_ccw prev (current_AB pinA pinB) then 1 else 0) + ccw_count (current_AB pinA pinB) xs"

section \<open>Observations of a run\<close>

text \<open>The three variables of the connection state manager, as one value.\<close>

definition conn :: "state \<Rightarrow> ConnectionState \<times> millis \<times> bool" where
  "conn s = (connectionState s, lastConnectionAttempt s, wasConnected s)"

text \<open>
  An event during which the retry clock keeps waiting: an interrupt, or a loop
  iteration that finds the link down and reads the clock of the reconnection block
  no more than \<open>RECONNECT_DELAY\<close> after the baseline \<open>t0\<close>.
\<close>

fun waiting :: "millis \<Rightarrow> event \<Rightarrow> bool" where
  "waiting t0 (Tick r) \<longleftrightarrow> \<not> linked r \<and> millis_conn r - t0 \<le> RECONNECT_DELAY"
| "waiting t0 (EncoderIRQ pinA pinB now) \<longleftrightarrow> True"
| "waiting t0 (ButtonIRQ now sw) \<longleftrightarrow> True"

text \<open>
  Scenario states and events. \<open>tick_at up t sw\<close> is a loop iteration during which
  the link answers \<open>up\<close>, every clock read gives \<open>t\<close>, the button pin reads \<open>sw\<close>
  and no encoder interrupt comes between the reads of the position;
  \<open>booted\<close> is the state that \<^verbatim>\<open>setup\<close> leaves when it reads the clock at 100 ms;
  \<open>link_up\<close> is the state after one loop iteration at 1000 ms that finds the link up.
\<close>

definition tick_at :: "bool \<Rightarrow> millis \<Rightarrow> level \<Rightarrow> event" where
  "tick_at up t sw =
     Tick \<lparr>linked = up, millis_disc = t, millis_conn = t, millis_led = t,
           irq_compare = [], irq_assign = [], millis_btn = t, pin_sw = sw\<rparr>"

definition booted :: state where
  "booted = fst (sketch_setup 100 initial)"

definition link_up :: state where
  "link_up = fst (step (tick_at True 1000 HIGH) booted)"

text \<open>
  What a run shows of the link: for every event, the connection state it leaves and
  the keys it wrote. No function after \<open>updateConnectionState\<close> assigns the
  connection state, so the state an iteration leaves is the one its writes saw.
\<close>

fun trace :: "event list \<Rightarrow> state \<Rightarrow> (ConnectionState \<times> key list) list" where
  "trace [] s = []"
| "trace (ev # evs) s =
     (let (s1, e1) = step ev s in (connectionState s1, keys_of e1) # trace evs s1)"

section \<open>The button cycle of the specification\<close>

text \<open>
  The cycle \<open>Up \<rightarrow> DebouncingDown \<rightarrow> Down \<rightarrow> DebouncingUp \<rightarrow> Up\<close>: the stage after a
  stage and the stage before it.
\<close>

fun next_stage :: "ButtonState \<Rightarrow> ButtonState" where
  "next_stage BUTTON_UP = BUTTON_DEBOUNCING_DOWN"
| "next_stage BUTTON_DEBOUNCING_DOWN = BUTTON_DOWN"
| "next_stage BUTTON_DOWN = BUTTON_DEBOUNCING_UP"
| "next_stage BUTTON_DEBOUNCING_UP = BUTTON_UP"

fun previous_stage :: "ButtonState \<Rightarrow> ButtonState" where
  "previous_stage BUTTON_UP = BUTTON_DEBOUNCING_UP"
| "previous_stage BUTTON_DEBOUNCING_DOWN = BUTTON_UP"
| "previous_stage BUTTON_DOWN = BUTTON_DEBOUNCING_DOWN"
| "previous_stage BUTTON_DEBOUNCING_UP = BUTTON_DOWN"

text \<open>
  The level of the button pin that moves a stage forward: low out of \<open>Up\<close> and
  \<open>DebouncingDown\<close>, high out of \<open>Down\<close> and \<open>DebouncingUp\<close>.
\<close>

fun pending_level :: "ButtonState \<Rightarrow> level" where
  "pending_level BUTTON_DEBOUNCING_UP = HIGH"
| "pending_level BUTTON_DOWN = HIGH"
| "pending_level BUTTON_DEBOUNCING_DOWN = LOW"
| "pending_level BUTTON_UP = LOW"

text \<open>
  The variables of the button debouncer as one value, and the loop iterations that
  deliver a pending press: those that find the button in \<open>Down\<close> and leave
  \<open>updateConnectionState\<close> in the state \<open>CONNECTED\<close>. A run is undelivered when none
  of its events is such an iteration.
\<close>

definition button :: "state \<Rightarrow> ButtonState \<times> millis \<times> bool" where
  "button s = (buttonState s, buttonStateChangeTime s, buttonEventProcessed s)"

fun delivering :: "event \<Rightarrow> state \<Rightarrow> bool" where
  "delivering (Tick r) s \<longleftrightarrow>
     buttonState s = BUTTON_DOWN
     \<and> connectionState (fst (updateConnectionState (linked r) (millis_disc r) (millis_conn r) s))
         = CONNECTED"
| "delivering (EncoderIRQ pinA pinB now) s \<longleftrightarrow> False"
| "delivering (ButtonIRQ now sw) s \<longleftrightarrow> False"

fun undelivered :: "event list \<Rightarrow> state \<Rightarrow> bool" where
  "undelivered [] s \<longleftrightarrow> True"
| "undelivered (ev # evs) s \<longleftrightarrow> \<not> delivering ev s \<and> undelivered evs (fst (step ev s))"

text \<open>The state in which the press has been delivered: the flag is set.\<close>

definition delivered :: "state \<Rightarrow> state" where
  "delivered s = s\<lparr>buttonEventProcessed := True\<rparr>"

text \<open>
  Scenarios of one press. \<open>pressed_offline\<close>: from \<open>booted\<close> (the link is not up yet),
  the pin falls at 2000 ms and the dispatcher confirms \<open>Down\<close> at 2051 ms.
  \<open>short_press\<close>: the pin falls at 2000 ms and rises at 2052 ms, while the loop runs
  every 6 ms with the link up; the iteration at 2051 ms confirms \<open>Down\<close>.
  \<open>held_press\<close>: the same, but the pin rises at 2060 ms, after the iteration at
  2057 ms.
\<close>

definition pressed_offline :: state where
  "pressed_offline = fst (handleButtonEvent 2051 LOW (buttonISR 2000 LOW booted))"

definition short_press :: "event list" where
  "short_press =
     [ButtonIRQ 2000 LOW]
     @ map (\<lambda>t. tick_at True t LOW) [2003, 2009, 2015, 2021, 2027, 2033, 2039, 2045, 2051]
     @ [ButtonIRQ 2052 HIGH]
     @ map (\<lambda>t. tick_at True t HIGH) [2057, 2063, 2069, 2075, 2081, 2087, 2093, 2099, 2105]"

definition held_press :: "event list" where
  "held_press =
     [ButtonIRQ 2000 LOW]
     @ map (\<lambda>t. tick_at True t LOW)
         [2003, 2009, 2015, 2021, 2027, 2033, 2039, 2045, 2051, 2057]
     @ [ButtonIRQ 2060 HIGH]
     @ map (\<lambda>t. tick_at True t HIGH) [2063, 2069, 2075, 2081, 2087, 2093, 2099, 2105, 2111]"

text \<open>
  The encoder interrupts of a list of samples, as events of a run; the arrow keys
  among the keys written; and the states in which the link is up, the position is
  reported and the button is up.
\<close>

definition irqs :: "sample list \<Rightarrow> event list" where
  "irqs xs = map (\<lambda>(pinA, pinB, now). EncoderIRQ pinA pinB now) xs"

definition arrows :: "key list \<Rightarrow> key list" where
  "arrows ks = filter (\<lambda>k. k = KEY_RIGHT_ARROW \<or> k = KEY_LEFT_ARROW) ks"

text \<open>
  The variables of the decoder as one value, and the loop iterations that find the
  link up and in which no encoder interrupt comes between the reads of the position.
\<close>

definition encoder :: "state \<Rightarrow> 32 word \<times> millis \<times> 8 word" where
  "encoder s = (encoderPos s, lastEncoderEvent s, old_AB s)"

definition connected_quiet :: "readings \<Rightarrow> bool" where
  "connected_quiet r \<longleftrightarrow> linked r \<and> irq_compare r = [] \<and> irq_assign r = []"

definition settled :: "state \<Rightarrow> bool" where
  "settled s \<longleftrightarrow>
     connectionState s = CONNECTED \<and> wasConnected s \<and> encoderPos s = lastReportedPos s
     \<and> buttonState s = BUTTON_UP"

section \<open>The quadrature decoder: one invocation\<close>

lemma current_AB_simps:
  "current_AB False False = 0" "current_AB False True = 1"
  "current_AB True False = 2" "current_AB True True = 3"
  by (simp_all add: current_AB_def)


lemma encoderISR_clockwise:
  assumes "\<not> now - lastEncoderEvent s < encoderDebounceTime"
    and "clockwise (old_AB s) (current_AB pinA pinB)"
  shows "encoderISR pinA pinB now s =
           s\<lparr>encoderPos := encoderPos s + 1, lastEncoderEvent := now,
              old_AB := current_AB pinA pinB\<rparr>"
  using assms by (simp add: encoderISR_def Let_def)

lemma clockwise_not_counter: "clockwise old cur \<Longrightarrow> \<not> counter_clockwise old cur"
  unfolding clockwise_def counter_clockwise_def
  by (elim disjE conjE) simp_all

lemma encoderISR_counter_clockwise:
  assumes "\<not> now - lastEncoderEvent s < encoderDebounceTime"
    and "counter_clockwise (old_AB s) (current_AB pinA pinB)"
  shows "encoderISR pinA pinB now s =
           s\<lparr>encoderPos := encoderPos s - 1, lastEncoderEvent := now,
              old_AB := current_AB pinA pinB\<rparr>"
proof -
  have "\<not> clockwise (old_AB s) (current_AB pinA pinB)"
    using assms(2) clockwise_not_counter by blast
  then show ?thesis
    using assms by (simp add: encoderISR_def Let_def)
qed

lemma encoderISR_illegal:
  assumes "\<not> adjacent (old_AB s) (current_AB pinA pinB)"
  shows "encoderISR pinA pinB now s =
           (if now - lastEncoderEvent s < encoderDebounceTime then s
            else s\<lparr>old_AB := current_AB pinA pinB\<rparr>)"
  using assms by (simp add: encoderISR_def adjacent_def Let_def)

text \<open>
  Claim C2, as the code has it. An invocation of \<open>encoderISR\<close> that observes an illegal
  jump (the pair of stored history and observed pins matches neither four-way condition)
  leaves \<open>encoderPos\<close> and \<open>lastEncoderEvent\<close> as they were. The history \<open>old_AB\<close> is
  left alone only when the invocation returns at the time check; past the time check
  the final assignment \<^verbatim>\<open>old_AB = current_AB\<close> overwrites it with the observed pin
  pair. No other field changes.
\<close>

theorem illegal_jump_overwrites_history_only:
  assumes "\<not> clockwise (old_AB s) (current_AB pinA pinB)"
    and "\<not> counter_clockwise (old_AB s) (current_AB pinA pinB)"
  shows "encoderPos (encoderISR pinA pinB now s) = encoderPos s
       \<and> lastEncoderEvent (encoderISR pinA pinB now s) = lastEncoderEvent s
       \<and> encoderISR pinA pinB now s =
           (if now - lastEncoderEvent s < encoderDebounceTime then s
            else s\<lparr>old_AB := current_AB pinA pinB\<rparr>)"
  using assms by (simp add: encoderISR_def Let_def)

text \<open>
  The theorem at the fresh decoder, whose history is \<open>00\<close>, observing the pins \<open>11\<close> at
  10 ms: position and timestamp stay 0, the history becomes \<open>11\<close>.
\<close>

theorem illegal_jump_overwrites_history_only_witness:
  "\<not> clockwise (old_AB initial) (current_AB True True)
   \<and> \<not> counter_clockwise (old_AB initial) (current_AB True True)
   \<and> encoderPos (encoderISR True True 10 initial) = 0
   \<and> lastEncoderEvent (encoderISR True True 10 initial) = 0
   \<and> old_AB (encoderISR True True 10 initial) = 3"
proof -
  have a: "\<not> clockwise (old_AB initial) (current_AB True True)"
    by (simp add: initial_def clockwise_def current_AB_simps)
  have b: "\<not> counter_clockwise (old_AB initial) (current_AB True True)"
    by (simp add: initial_def counter_clockwise_def current_AB_simps)
  show ?thesis
    using a b illegal_jump_overwrites_history_only [OF a b, of 10]
    by (simp add: initial_def encoderDebounceTime_def current_AB_simps)
qed

text \<open>
  Claim C2, as the specification states it, fails: the same invocation is an illegal
  jump (\<open>00\<close> to \<open>11\<close>) and changes the history.
\<close>

theorem illegal_jump_mutates_history_counterexample:
  "\<not> clockwise (old_AB initial) (current_AB True True)
   \<and> \<not> counter_clockwise (old_AB initial) (current_AB True True)
   \<and> old_AB (encoderISR True True 10 initial) \<noteq> old_AB initial"
  by (simp add: encoderISR_def initial_def clockwise_def counter_clockwise_def
      current_AB_simps encoderDebounceTime_def)



section \<open>The quadrature decoder: replayed sequences\<close>

lemma spec_cw_clockwise: "spec_cw p q = clockwise p q"
  by (auto simp: spec_cw_def gray_cycle_def clockwise_def)

lemma spec_ccw_counter_clockwise: "spec_ccw p q = counter_clockwise p q"
  by (auto simp: spec_ccw_def spec_cw_def gray_cycle_def counter_clockwise_def)

lemma replay_append: "replay (xs @ ys) s = replay ys (replay xs s)"
  by (induction xs arbitrary: s) auto

text \<open>The handler touches the position, its timestamp and its history, nothing else.\<close>

lemma conn_encoderISR: "conn (encoderISR pinA pinB now s) = conn s"
  by (simp add: conn_def encoderISR_def Let_def)

lemma button_encoderISR: "button (encoderISR pinA pinB now s) = button s"
  by (simp add: button_def encoderISR_def Let_def)

lemma replay_frame:
  "conn (replay xs s) = conn s \<and> button (replay xs s) = button s
   \<and> lastReportedPos (replay xs s) = lastReportedPos s"
proof (induction xs arbitrary: s)
  case Nil
  then show ?case by simp
next
  case (Cons x xs)
  obtain a b t where x: "x = (a, b, t)" by (cases x)
  have "lastReportedPos (encoderISR a b t s) = lastReportedPos s"
    by (simp add: encoderISR_def Let_def)
  with Cons.IH [of "encoderISR a b t s"] show ?case
    by (simp add: x conn_encoderISR button_encoderISR)
qed

lemma replay_fields:
  "connectionState (replay xs s) = connectionState s"
  "buttonState (replay xs s) = buttonState s"
  "buttonStateChangeTime (replay xs s) = buttonStateChangeTime s"
  "buttonEventProcessed (replay xs s) = buttonEventProcessed s"
  "lastReportedPos (replay xs s) = lastReportedPos s"
  using replay_frame [of xs s] by (simp_all add: conn_def button_def)


lemma replay_legal_position:
  "legal_sequence (old_AB s) (lastEncoderEvent s) xs \<Longrightarrow>
   encoderPos (replay xs s) =
     encoderPos s + of_nat (cw_count (old_AB s) xs) - of_nat (ccw_count (old_AB s) xs)"
proof (induction xs arbitrary: s)
  case Nil
  then show ?case by simp
next
  case (Cons x xs)
  obtain a b t where x: "x = (a, b, t)" by (cases x)
  let ?cur = "current_AB a b"
  let ?s1 = "encoderISR a b t s"
  from Cons.prems have step: "spec_cw (old_AB s) ?cur \<or> spec_ccw (old_AB s) ?cur"
    and late: "encoderDebounceTime \<le> t - lastEncoderEvent s"
    and rest: "legal_sequence ?cur t xs"
    by (simp_all add: x)
  from late have pass: "\<not> t - lastEncoderEvent s < encoderDebounceTime"
    by (simp add: not_less)
  show ?case
  proof (cases "clockwise (old_AB s) ?cur")
    case True
    then have s1: "?s1 = s\<lparr>encoderPos := encoderPos s + 1, lastEncoderEvent := t, old_AB := ?cur\<rparr>"
      using pass by (simp add: encoderISR_clockwise)
    have nccw: "\<not> counter_clockwise (old_AB s) ?cur"
      using True clockwise_not_counter by blast
    have "legal_sequence (old_AB ?s1) (lastEncoderEvent ?s1) xs"
      using rest by (simp add: s1)
    from Cons.IH [OF this] show ?thesis
      using True nccw by (simp add: x s1 spec_cw_clockwise spec_ccw_counter_clockwise)
  next
    case False
    then have ccw: "counter_clockwise (old_AB s) ?cur"
      using step by (simp add: spec_cw_clockwise spec_ccw_counter_clockwise)
    then have s1: "?s1 = s\<lparr>encoderPos := encoderPos s - 1, lastEncoderEvent := t, old_AB := ?cur\<rparr>"
      using pass by (simp add: encoderISR_counter_clockwise)
    have "legal_sequence (old_AB ?s1) (lastEncoderEvent ?s1) xs"
      using rest by (simp add: s1)
    from Cons.IH [OF this] show ?thesis
      using False ccw by (simp add: x s1 spec_cw_clockwise spec_ccw_counter_clockwise)
  qed
qed

lemma sint_of_int_32:
  fixes k :: int
  assumes "- (2 ^ 31) \<le> k" and "k < 2 ^ 31"
  shows "sint (word_of_int k :: 32 word) = k"
  using assms by (simp add: sint_sbintrunc' signed_take_bit_int_eq_self)




text \<open>
  Claim C9, as the code has it. An illegal jump never changes the position in the
  invocation that observes it, so a sequence that ends with the jump ends at the
  position it had before. Inserted before a rest \<open>ys\<close>, a jump that is rejected by the
  time check changes nothing, and the rest is replayed from the same state; a jump
  that passes the time check overwrites the history with the observed pin pair and
  nothing else, and the rest is replayed against that history.
\<close>

theorem illegal_jump_in_sequence:
  assumes "\<not> adjacent (old_AB (replay xs s)) (current_AB pinA pinB)"
  shows "encoderPos (replay (xs @ [(pinA, pinB, now)]) s) = encoderPos (replay xs s)
       \<and> replay (xs @ (pinA, pinB, now) # ys) s =
           replay ys (if now - lastEncoderEvent (replay xs s) < encoderDebounceTime
                      then replay xs s
                      else (replay xs s)\<lparr>old_AB := current_AB pinA pinB\<rparr>)"
  using assms by (simp add: replay_append encoderISR_illegal)

text \<open>
  The theorem after one accepted step (\<open>00 \<rightarrow> 01\<close> at 10 ms): the jump to \<open>10\<close> at 12 ms
  is inside the debounce window, and the sequence with it ends where the sequence
  without it ends, at position 2.
\<close>

theorem illegal_jump_in_sequence_witness:
  "\<not> adjacent (old_AB (replay [(False, True, 10)] initial)) (current_AB True False)
   \<and> encoderPos (replay ([(False, True, 10)] @ [(True, False, 12)]) initial) = 1
   \<and> replay ([(False, True, 10)] @ (True, False, 12) # [(True, True, 20)]) initial
       = replay ([(False, True, 10)] @ [(True, True, 20)]) initial
   \<and> encoderPos (replay ([(False, True, 10)] @ [(True, True, 20)]) initial) = 2"
proof -
  have s1: "replay [(False, True, 10)] initial =
      initial\<lparr>encoderPos := 1, lastEncoderEvent := 10, old_AB := 1\<rparr>"
    by (simp add: encoderISR_def initial_def encoderDebounceTime_def clockwise_def
        current_AB_simps)
  have ill: "\<not> adjacent (old_AB (replay [(False, True, 10)] initial)) (current_AB True False)"
    unfolding s1 by (simp add: adjacent_def clockwise_def counter_clockwise_def current_AB_simps)
  note inst = illegal_jump_in_sequence [OF ill, of 12 "[(True, True, 20)]"]
  have soon: "(12 :: millis) - lastEncoderEvent (replay [(False, True, 10)] initial)
      < encoderDebounceTime"
    unfolding s1 by (simp add: encoderDebounceTime_def)
  have "encoderPos (replay ([(False, True, 10)] @ [(True, False, 12)]) initial)
      = encoderPos (replay [(False, True, 10)] initial)"
    using inst by blast
  then have p1: "encoderPos (replay ([(False, True, 10)] @ [(True, False, 12)]) initial) = 1"
    unfolding s1 by simp
  have "replay ([(False, True, 10)] @ (True, False, 12) # [(True, True, 20)]) initial
       = replay [(True, True, 20)] (replay [(False, True, 10)] initial)"
    using inst soon by presburger
  then have same: "replay ([(False, True, 10)] @ (True, False, 12) # [(True, True, 20)]) initial
       = replay ([(False, True, 10)] @ [(True, True, 20)]) initial"
    by (simp only: replay_append)
  have p2: "encoderPos (replay ([(False, True, 10)] @ [(True, True, 20)]) initial) = 2"
    by (simp add: encoderISR_def initial_def encoderDebounceTime_def clockwise_def
        current_AB_simps)
  from ill p1 same p2 show ?thesis by blast
qed

text \<open>
  Claim C9, as the specification states it, fails. On the fresh decoder the sample
  \<open>01\<close> at 20 ms is a clockwise step and the position ends at 1. With the illegal jump
  to \<open>11\<close> inserted before it at 10 ms, the same sample is decoded against the history
  \<open>11\<close>, as a counter-clockwise step, and the position ends at \<open>-1\<close>.
\<close>

theorem illegal_jump_changes_final_position_counterexample:
  "\<not> adjacent (old_AB initial) (current_AB True True)
   \<and> encoderPos (replay [(False, True, 20)] initial) = 1
   \<and> encoderPos (replay [(True, True, 10), (False, True, 20)] initial) = - 1
   \<and> encoderPos (replay [(True, True, 10), (False, True, 20)] initial)
       \<noteq> encoderPos (replay [(False, True, 20)] initial)"
  by (simp add: encoderISR_def initial_def encoderDebounceTime_def adjacent_def clockwise_def
      counter_clockwise_def current_AB_simps)

section \<open>The connection state manager\<close>

lemma conn_buttonISR: "conn (buttonISR now sw s) = conn s"
  by (simp add: conn_def buttonISR_def split: ButtonState.splits)

lemma conn_updateLED: "conn (fst (updateLED now s)) = conn s"
  by (simp add: conn_def updateLED_def Let_def)

lemma conn_handleEncoderChange:
  "conn (fst (handleEncoderChange before_compare before_assign s)) = conn s"
proof -
  have "conn (replay before_assign (replay before_compare s)) = conn s"
    by (simp add: replay_frame)
  then show ?thesis
    by (simp add: conn_def handleEncoderChange_def Let_def)
qed

lemma conn_handleButtonEvent: "conn (fst (handleButtonEvent now sw s)) = conn s"
  by (simp add: conn_def handleButtonEvent_def split: ButtonState.splits)

lemma connectionState_conn: "connectionState s = fst (conn s)"
  by (simp add: conn_def)

lemma conn_loop:
  "conn (fst (loop r s)) =
   conn (fst (updateConnectionState (linked r) (millis_disc r) (millis_conn r) s))"
  by (simp add: loop_def Let_def split_def conn_handleButtonEvent conn_handleEncoderChange
      conn_updateLED)

lemma updateConnectionState_waiting:
  assumes "conn s = (DISCONNECTED, t0, False)" and "now - t0 \<le> RECONNECT_DELAY"
  shows "updateConnectionState False t_disc now s = (s, [])"
proof -
  have "\<not> RECONNECT_DELAY < now - t0"
    using assms(2) by (simp add: not_less)
  with assms(1) show ?thesis
    by (simp add: updateConnectionState_def conn_def)
qed

lemma updateConnectionState_retry:
  assumes "conn s = (DISCONNECTED, t0, False)" and "RECONNECT_DELAY < now - t0"
  shows "updateConnectionState False t_disc now s =
           (s\<lparr>connectionState := CONNECTING, lastConnectionAttempt := now\<rparr>,
            [Println ''Attempting to reconnect BLE...''])"
  using assms by (simp add: updateConnectionState_def conn_def)

lemma updateConnectionState_link_loss:
  assumes "connectionState s = CONNECTED" and "wasConnected s"
    and "now - t_disc \<le> RECONNECT_DELAY"
  shows "updateConnectionState False t_disc now s =
           (s\<lparr>connectionState := DISCONNECTED, wasConnected := False,
              lastConnectionAttempt := t_disc\<rparr>,
            [Println ''BLE disconnected!''])"
proof -
  have "\<not> RECONNECT_DELAY < now - t_disc"
    using assms(3) by (simp add: not_less)
  with assms(1,2) show ?thesis
    by (simp add: updateConnectionState_def)
qed

lemma step_waiting:
  assumes "conn s = (DISCONNECTED, t0, False)" and "waiting t0 ev"
  shows "conn (fst (step ev s)) = (DISCONNECTED, t0, False)"
proof (cases ev)
  case (EncoderIRQ pinA pinB now)
  then show ?thesis using assms(1) by (simp add: conn_encoderISR)
next
  case (ButtonIRQ now sw)
  then show ?thesis using assms(1) by (simp add: conn_buttonISR)
next
  case (Tick r)
  then have "updateConnectionState (linked r) (millis_disc r) (millis_conn r) s = (s, [])"
    using assms updateConnectionState_waiting [of s t0 "millis_conn r" "millis_disc r"]
    by simp
  then show ?thesis
    using Tick assms(1) by (simp add: conn_loop)
qed

lemma run_waiting:
  "conn s = (DISCONNECTED, t0, False) \<Longrightarrow> list_all (waiting t0) evs \<Longrightarrow>
   conn (fst (run evs s)) = (DISCONNECTED, t0, False)"
proof (induction evs arbitrary: s)
  case Nil
  then show ?case by simp
next
  case (Cons ev evs)
  from Cons.prems have "conn (fst (step ev s)) = (DISCONNECTED, t0, False)"
    by (simp add: step_waiting)
  moreover from Cons.prems have "list_all (waiting t0) evs"
    by simp
  ultimately have "conn (fst (run evs (fst (step ev s)))) = (DISCONNECTED, t0, False)"
    by (rule Cons.IH)
  then show ?case
    by (simp add: split_def Let_def)
qed

text \<open>
  In every state that a run reaches after \<^verbatim>\<open>setup\<close>, the connection state is
  \<open>CONNECTED\<close> exactly when the flag \<open>wasConnected\<close> is set.
\<close>

lemma updateConnectionState_flag:
  assumes "(connectionState s = CONNECTED) = wasConnected s"
  shows "(connectionState (fst (updateConnectionState up t_disc now s)) = CONNECTED)
       = wasConnected (fst (updateConnectionState up t_disc now s))"
  using assms by (cases "connectionState s") (simp_all add: updateConnectionState_def)

lemma step_flag:
  assumes "(connectionState s = CONNECTED) = wasConnected s"
  shows "(connectionState (fst (step ev s)) = CONNECTED) = wasConnected (fst (step ev s))"
proof (cases ev)
  case (EncoderIRQ pinA pinB now)
  with assms conn_encoderISR [of pinA pinB now s] show ?thesis
    by (simp add: conn_def)
next
  case (ButtonIRQ now sw)
  with assms conn_buttonISR [of now sw s] show ?thesis
    by (simp add: conn_def)
next
  case (Tick r)
  with updateConnectionState_flag [OF assms, of "linked r" "millis_disc r" "millis_conn r"]
    conn_loop [of r s]
  show ?thesis
    by (simp add: conn_def)
qed

lemma run_flag:
  "(connectionState s = CONNECTED) = wasConnected s \<Longrightarrow>
   (connectionState (fst (run evs s)) = CONNECTED) = wasConnected (fst (run evs s))"
proof (induction evs arbitrary: s)
  case Nil
  then show ?case by simp
next
  case (Cons ev evs)
  from Cons.IH [OF step_flag [OF Cons.prems, of ev]] show ?case
    by (simp add: split_def Let_def)
qed

lemma reachable_flag:
  "(connectionState (fst (run evs (fst (sketch_setup t initial)))) = CONNECTED)
   = wasConnected (fst (run evs (fst (sketch_setup t initial))))"
  by (rule run_flag) (simp add: sketch_setup_def initial_def)

text \<open>
  Claim C6. Let a run after \<^verbatim>\<open>setup\<close> have reached a state that is \<open>CONNECTED\<close>, and
  let \<open>updateConnectionState\<close> find the link down, reading the clock \<open>t0\<close> in the
  disconnect branch (and, in its reconnection block, a clock no more than
  \<open>RECONNECT_DELAY\<close> later). Then
  \<^item> the state becomes \<open>DISCONNECTED\<close> and the baseline \<open>t0\<close>, nothing else changes;
  \<^item> through every run of interrupts and loop iterations that find the link down
    and read a clock no more than \<open>RECONNECT_DELAY\<close> after \<open>t0\<close>, the state stays
    \<open>DISCONNECTED\<close> with the baseline \<open>t0\<close>;
  \<^item> the first invocation after that which reads a clock more than \<open>RECONNECT_DELAY\<close>
    after \<open>t0\<close> changes the state to \<open>CONNECTING\<close> and the baseline to that clock,
    changes no other variable, and its only outward action is a line on the serial
    log: nothing is asked of the link;
  \<^item> in particular an invocation at \<open>t0 + 4999\<close> leaves the state \<open>DISCONNECTED\<close> and one
    at \<open>t0 + 5001\<close> makes it \<open>CONNECTING\<close>.
\<close>

theorem link_loss_retry_clock:
  assumes "s = fst (run before (fst (sketch_setup t_boot initial)))"
    and "connectionState s = CONNECTED"
    and "t_now - t0 \<le> RECONNECT_DELAY"
    and "s0 = fst (updateConnectionState False t0 t_now s)"
    and "list_all (waiting t0) evs"
    and "s1 = fst (run evs s0)"
    and "RECONNECT_DELAY < now - t0"
  shows "s0 = s\<lparr>connectionState := DISCONNECTED, wasConnected := False,
                 lastConnectionAttempt := t0\<rparr>
       \<and> connectionState s1 = DISCONNECTED \<and> lastConnectionAttempt s1 = t0
       \<and> updateConnectionState False t_disc now s1 =
           (s1\<lparr>connectionState := CONNECTING, lastConnectionAttempt := now\<rparr>,
            [Println ''Attempting to reconnect BLE...''])
       \<and> connectionState (fst (updateConnectionState False t_disc (t0 + 4999) s1)) = DISCONNECTED
       \<and> connectionState (fst (updateConnectionState False t_disc (t0 + 5001) s1)) = CONNECTING"
proof -
  have "wasConnected s"
    using assms(1,2) reachable_flag [of before t_boot] by simp
  then have s0: "s0 = s\<lparr>connectionState := DISCONNECTED, wasConnected := False,
      lastConnectionAttempt := t0\<rparr>"
    using assms(2-4) by (simp add: updateConnectionState_link_loss)
  then have "conn s0 = (DISCONNECTED, t0, False)"
    by (simp add: conn_def)
  then have c1: "conn s1 = (DISCONNECTED, t0, False)"
    using assms(5,6) by (simp add: run_waiting)
  have early: "t0 + 4999 - t0 \<le> RECONNECT_DELAY"
    by (simp add: RECONNECT_DELAY_def)
  have late: "RECONNECT_DELAY < t0 + 5001 - t0"
    by (simp add: RECONNECT_DELAY_def)
  have "connectionState s1 = DISCONNECTED \<and> lastConnectionAttempt s1 = t0"
    using c1 by (simp add: conn_def)
  moreover have "updateConnectionState False t_disc now s1 =
      (s1\<lparr>connectionState := CONNECTING, lastConnectionAttempt := now\<rparr>,
       [Println ''Attempting to reconnect BLE...''])"
    using c1 assms(7) by (rule updateConnectionState_retry)
  moreover have "connectionState (fst (updateConnectionState False t_disc (t0 + 4999) s1))
      = DISCONNECTED"
    using updateConnectionState_waiting [OF c1 early, of t_disc] c1 by (simp add: conn_def)
  moreover have "connectionState (fst (updateConnectionState False t_disc (t0 + 5001) s1))
      = CONNECTING"
    using updateConnectionState_retry [OF c1 late, of t_disc] by simp
  ultimately show ?thesis
    using s0 by blast
qed

lemma link_up_eq:
  "link_up = initial\<lparr>connectionState := CONNECTED, lastConnectionAttempt := 100,
     wasConnected := True, leds0 := colorConnected\<rparr>"
  by (simp add: link_up_def booted_def tick_at_def sketch_setup_def loop_def
      updateConnectionState_def updateLED_def handleEncoderChange_def handleButtonEvent_def
      initial_def)

text \<open>
  The theorem on \<open>link_up\<close>, with the link lost at 100000 ms: an encoder interrupt
  and a loop iteration at 104999 ms leave the state \<open>DISCONNECTED\<close>, the invocation at
  105001 ms makes it \<open>CONNECTING\<close>.
\<close>

theorem link_loss_retry_clock_witness:
  "link_up = fst (run [tick_at True 1000 HIGH] (fst (sketch_setup 100 initial)))
   \<and> connectionState link_up = CONNECTED
   \<and> (100000 :: millis) - 100000 \<le> RECONNECT_DELAY
   \<and> list_all (waiting 100000) [EncoderIRQ False True 100200, tick_at False 104999 HIGH]
   \<and> RECONNECT_DELAY < (105001 :: millis) - 100000
   \<and> connectionState (fst (updateConnectionState False 100000 100000 link_up)) = DISCONNECTED
   \<and> connectionState (fst (run [EncoderIRQ False True 100200, tick_at False 104999 HIGH]
         (fst (updateConnectionState False 100000 100000 link_up)))) = DISCONNECTED
   \<and> connectionState (fst (updateConnectionState False 105001 105001
         (fst (run [EncoderIRQ False True 100200, tick_at False 104999 HIGH]
           (fst (updateConnectionState False 100000 100000 link_up)))))) = CONNECTING"
proof -
  let ?evs = "[EncoderIRQ False True 100200, tick_at False 104999 HIGH]"
  let ?s0 = "fst (updateConnectionState False 100000 100000 link_up)"
  let ?s1 = "fst (run ?evs ?s0)"
  have h1: "link_up = fst (run [tick_at True 1000 HIGH] (fst (sketch_setup 100 initial)))"
    by (simp add: link_up_def booted_def split_def)
  have h2: "connectionState link_up = CONNECTED"
    by (simp add: link_up_eq)
  have h3: "(100000 :: millis) - 100000 \<le> RECONNECT_DELAY"
    by simp
  have h4: "list_all (waiting 100000) ?evs"
    by (simp add: tick_at_def RECONNECT_DELAY_def)
  have h5: "RECONNECT_DELAY < (105001 :: millis) - 100000"
    by (simp add: RECONNECT_DELAY_def)
  note inst = link_loss_retry_clock [OF h1 h2 h3 refl h4 refl h5, of 105001]
  have a: "connectionState ?s0 = DISCONNECTED"
    using inst by simp
  have b: "connectionState ?s1 = DISCONNECTED"
    using inst by blast
  have "updateConnectionState False 105001 105001 ?s1 =
      (?s1\<lparr>connectionState := CONNECTING, lastConnectionAttempt := 105001\<rparr>,
       [Println ''Attempting to reconnect BLE...''])"
    using inst by blast
  then have c: "connectionState (fst (updateConnectionState False 105001 105001 ?s1)) = CONNECTING"
    by simp
  from h1 h2 h3 h4 h5 a b c show ?thesis by blast
qed

section \<open>Key writes and the connection state\<close>

lemma keys_of_append: "keys_of (es @ fs) = keys_of es @ keys_of fs"
  by (induction es rule: keys_of.induct) simp_all

lemma keys_updateConnectionState:
  "keys_of (snd (updateConnectionState up t_disc now s)) = []"
  by (simp add: updateConnectionState_def Let_def split_def)

lemma keys_updateLED: "keys_of (snd (updateLED now s)) = []"
  by (simp add: updateLED_def Let_def)

lemma keys_handleEncoderChange:
  "keys_of (snd (handleEncoderChange before_compare before_assign s)) =
     (if encoderPos s = lastReportedPos s then []
      else if sint (lastReportedPos s) < sint (encoderPos (replay before_compare s))
      then [KEY_RIGHT_ARROW]
      else [KEY_LEFT_ARROW])"
  by (simp add: handleEncoderChange_def Let_def replay_fields)

lemma keys_handleButtonEvent:
  "keys_of (snd (handleButtonEvent now sw s)) =
     (if buttonState s = BUTTON_DOWN \<and> connectionState s = CONNECTED
         \<and> \<not> buttonEventProcessed s
      then [KEY_RETURN] else [])"
  by (simp add: handleButtonEvent_def split: ButtonState.splits)

lemma keys_loop:
  "keys_of (snd (loop r s)) =
     (let s1 = fst (updateConnectionState (linked r) (millis_disc r) (millis_conn r) s);
          s2 = fst (updateLED (millis_led r) s1)
      in if connectionState s1 = CONNECTED
         then keys_of (snd (handleEncoderChange (irq_compare r) (irq_assign r) s2)) @
              keys_of (snd (handleButtonEvent (millis_btn r) (pin_sw r)
                (fst (handleEncoderChange (irq_compare r) (irq_assign r) s2))))
         else keys_of (snd (handleButtonEvent (millis_btn r) (pin_sw r) s2)))"
proof -
  have "connectionState (fst (updateLED (millis_led r) s1)) = connectionState s1" for s1
    by (simp add: connectionState_conn conn_updateLED)
  then show ?thesis
    by (simp add: loop_def Let_def split_def keys_of_append keys_updateConnectionState
        keys_updateLED)
qed

lemma keys_loop_not_connected:
  assumes "connectionState (fst (updateConnectionState (linked r) (millis_disc r)
      (millis_conn r) s)) \<noteq> CONNECTED"
  shows "keys_of (snd (loop r s)) = []"
proof -
  let ?s1 = "fst (updateConnectionState (linked r) (millis_disc r) (millis_conn r) s)"
  have "connectionState (fst (updateLED (millis_led r) ?s1)) = connectionState ?s1"
    by (simp add: connectionState_conn conn_updateLED)
  with assms show ?thesis
    by (simp add: keys_loop Let_def keys_handleButtonEvent)
qed

lemma connectionState_loop:
  "connectionState (fst (loop r s)) =
   connectionState (fst (updateConnectionState (linked r) (millis_disc r) (millis_conn r) s))"
  by (simp add: connectionState_conn conn_loop)

lemma step_writes_connected:
  "keys_of (snd (step ev s)) = [] \<or> connectionState (fst (step ev s)) = CONNECTED"
proof (cases ev)
  case (Tick r)
  then show ?thesis
    using keys_loop_not_connected [of r s] by (auto simp: connectionState_loop)
qed simp_all

lemma trace_writes_connected:
  "list_all (\<lambda>(c, ks). ks = [] \<or> c = CONNECTED) (trace evs s)"
proof (induction evs arbitrary: s)
  case Nil
  then show ?case by simp
next
  case (Cons ev evs)
  show ?case
    using step_writes_connected [of ev s] Cons.IH [of "fst (step ev s)"]
    by (simp add: split_def Let_def)
qed

text \<open>
  Claim C7. A key is written only while the connection state is \<open>CONNECTED\<close>:
  \<^item> \<open>handleButtonEvent\<close> writes only when it is entered in the state \<open>CONNECTED\<close>;
  \<^item> a loop iteration writes (arrow keys or the button key) only when
    \<open>updateConnectionState\<close> has left the state \<open>CONNECTED\<close>, which then still is the
    state at the end of the iteration;
  \<^item> along every run of interrupts and loop iterations, from any state, every event
    that writes a key leaves the state \<open>CONNECTED\<close>.
  When the state is not \<open>CONNECTED\<close> nothing is written, whatever is pending.
\<close>

theorem key_writes_gated_on_connected:
  "(keys_of (snd (handleButtonEvent now sw s)) \<noteq> [] \<longrightarrow> connectionState s = CONNECTED)
   \<and> (keys_of (snd (loop r s)) \<noteq> [] \<longrightarrow>
        connectionState (fst (updateConnectionState (linked r) (millis_disc r) (millis_conn r) s))
          = CONNECTED
        \<and> connectionState (fst (loop r s)) = CONNECTED)
   \<and> list_all (\<lambda>(c, ks). ks = [] \<or> c = CONNECTED) (trace evs s)"
proof -
  have "connectionState s = CONNECTED" if "keys_of (snd (handleButtonEvent now sw s)) \<noteq> []"
    using that by (simp add: keys_handleButtonEvent split: if_splits)
  moreover have "connectionState (fst (updateConnectionState (linked r) (millis_disc r)
      (millis_conn r) s)) = CONNECTED \<and> connectionState (fst (loop r s)) = CONNECTED"
    if "keys_of (snd (loop r s)) \<noteq> []"
    using that keys_loop_not_connected [of r s] by (auto simp: connectionState_loop)
  ultimately show ?thesis
    using trace_writes_connected [of evs s] by blast
qed

text \<open>
  The theorem on a clockwise step at 2000 ms and the loop iteration at 2010 ms that
  reports it with the link up: the iteration writes the right-arrow key and the state
  is \<open>CONNECTED\<close>. From \<open>booted\<close>, with the link down, the same two events write nothing.
\<close>

theorem key_writes_gated_on_connected_witness:
  "keys_of (snd (step (tick_at True 2010 HIGH) (encoderISR False True 2000 link_up)))
     = [KEY_RIGHT_ARROW]
   \<and> connectionState (fst (step (tick_at True 2010 HIGH) (encoderISR False True 2000 link_up)))
     = CONNECTED
   \<and> trace [EncoderIRQ False True 2000, tick_at True 2010 HIGH] link_up
     = [(CONNECTED, []), (CONNECTED, [KEY_RIGHT_ARROW])]
   \<and> trace [EncoderIRQ False True 2000, tick_at False 2010 HIGH] booted
     = [(CONNECTING, []), (CONNECTING, [])]"
proof -
  let ?r = "\<lparr>linked = True, millis_disc = 2010, millis_conn = 2010, millis_led = 2010,
    irq_compare = [], irq_assign = [], millis_btn = 2010, pin_sw = HIGH\<rparr>"
  let ?s = "encoderISR False True 2000 link_up"
  have s: "?s = link_up\<lparr>encoderPos := 1, lastEncoderEvent := 2000, old_AB := 1\<rparr>"
    by (simp add: encoderISR_def link_up_eq initial_def encoderDebounceTime_def clockwise_def
        current_AB_simps)
  have keys: "keys_of (snd (loop ?r ?s)) = [KEY_RIGHT_ARROW]"
    unfolding s
    by (simp add: link_up_eq initial_def loop_def updateConnectionState_def updateLED_def
        handleEncoderChange_def handleButtonEvent_def)
  then have "keys_of (snd (loop ?r ?s)) \<noteq> []"
    by simp
  with key_writes_gated_on_connected [of _ _ ?s ?r "[]"]
  have st: "connectionState (fst (loop ?r ?s)) = CONNECTED"
    by blast
  have cs: "connectionState ?s = CONNECTED"
    unfolding s by (simp add: link_up_eq)
  have t1: "trace [EncoderIRQ False True 2000, tick_at True 2010 HIGH] link_up
     = [(CONNECTED, []), (CONNECTED, [KEY_RIGHT_ARROW])]"
    using keys st cs by (simp add: tick_at_def Let_def split_def)
  have t2: "trace [EncoderIRQ False True 2000, tick_at False 2010 HIGH] booted
     = [(CONNECTING, []), (CONNECTING, [])]"
    by (simp add: tick_at_def booted_def sketch_setup_def initial_def encoderISR_def
        encoderDebounceTime_def clockwise_def current_AB_simps loop_def
        updateConnectionState_def updateLED_def handleEncoderChange_def handleButtonEvent_def
        RECONNECT_DELAY_def Let_def split_def)
  from keys st t1 t2 show ?thesis
    by (simp add: tick_at_def)
qed

section \<open>The button debouncer\<close>

text \<open>
  Claim C8, as the code has it. Every change of the button state moves it one stage
  along the cycle, never two. The interrupt handler moves it forward, from \<open>Up\<close> on a
  low pin and from \<open>Down\<close> on a high pin. The dispatcher acts on the two debouncing
  stages once the debounce time has passed: forward when the re-sampled pin confirms
  the edge, and back to the stage the edge came from when it does not
  (\<open>DebouncingDown \<rightarrow> Up\<close>, \<open>DebouncingUp \<rightarrow> Down\<close>).
\<close>

theorem button_moves_one_stage:
  "buttonState (buttonISR now sw s) =
     (if (buttonState s = BUTTON_UP \<or> buttonState s = BUTTON_DOWN)
         \<and> sw = pending_level (buttonState s)
      then next_stage (buttonState s) else buttonState s)
   \<and> buttonState (fst (handleButtonEvent now sw s)) =
     (if (buttonState s = BUTTON_DEBOUNCING_DOWN \<or> buttonState s = BUTTON_DEBOUNCING_UP)
         \<and> buttonDebounceTime < now - buttonStateChangeTime s
      then (if sw = pending_level (buttonState s) then next_stage (buttonState s)
            else previous_stage (buttonState s))
      else buttonState s)"
proof -
  have "sw \<noteq> LOW \<longleftrightarrow> sw = HIGH"
    by (cases sw) simp_all
  then show ?thesis
    by (cases "buttonState s") (simp_all add: buttonISR_def handleButtonEvent_def)
qed

text \<open>
  Claim C8, as the specification states it, fails. The interrupt at 1000 ms with the
  pin low moves the fresh button to \<open>DebouncingDown\<close>; the dispatcher at 1051 ms finds
  the pin high and moves the button to \<open>Up\<close>, which is not the next stage, \<open>Down\<close>.
\<close>

theorem button_noise_reverts_counterexample:
  "buttonState (buttonISR 1000 LOW initial) = BUTTON_DEBOUNCING_DOWN
   \<and> buttonState (fst (handleButtonEvent 1051 HIGH (buttonISR 1000 LOW initial))) = BUTTON_UP
   \<and> buttonState (fst (handleButtonEvent 1051 HIGH (buttonISR 1000 LOW initial)))
       \<noteq> buttonState (buttonISR 1000 LOW initial)
   \<and> buttonState (fst (handleButtonEvent 1051 HIGH (buttonISR 1000 LOW initial)))
       \<noteq> next_stage (buttonState (buttonISR 1000 LOW initial))"
  by (simp add: buttonISR_def handleButtonEvent_def initial_def buttonDebounceTime_def)

subsection \<open>Pending presses\<close>

lemma button_updateConnectionState:
  "button (fst (updateConnectionState up t_disc now s)) = button s"
  by (simp add: button_def updateConnectionState_def Let_def split_def)

lemma button_updateLED: "button (fst (updateLED now s)) = button s"
  by (simp add: button_def updateLED_def Let_def)

lemma button_handleEncoderChange:
  "button (fst (handleEncoderChange before_compare before_assign s)) = button s"
  by (simp add: button_def handleEncoderChange_def Let_def replay_fields)

lemma filter_return_encoder:
  "filter (\<lambda>k. k = KEY_RETURN)
     (keys_of (snd (handleEncoderChange before_compare before_assign s))) = []"
  by (simp add: keys_handleEncoderChange)

text \<open>
  The state in which a loop iteration enters \<open>handleButtonEvent\<close>: the button
  variables are those at the start of the iteration, the connection state is the one
  \<open>updateConnectionState\<close> left.
\<close>

lemma loop_button_part:
  "\<exists>s3. button s3 = button s
     \<and> connectionState s3 =
         connectionState (fst (updateConnectionState (linked r) (millis_disc r) (millis_conn r) s))
     \<and> fst (loop r s) = fst (handleButtonEvent (millis_btn r) (pin_sw r) s3)
     \<and> filter (\<lambda>k. k = KEY_RETURN) (keys_of (snd (loop r s))) =
         keys_of (snd (handleButtonEvent (millis_btn r) (pin_sw r) s3))"
proof -
  let ?s1 = "fst (updateConnectionState (linked r) (millis_disc r) (millis_conn r) s)"
  let ?s2 = "fst (updateLED (millis_led r) ?s1)"
  let ?s3 = "if connectionState ?s2 = CONNECTED then fst (handleEncoderChange (irq_compare r) (irq_assign r) ?s2)
    else ?s2"
  have b: "button ?s3 = button s"
    by (simp add: button_handleEncoderChange button_updateLED button_updateConnectionState)
  have "conn ?s3 = conn ?s1"
    by (simp add: conn_handleEncoderChange conn_updateLED)
  then have c: "connectionState ?s3 = connectionState ?s1"
    by (simp add: connectionState_conn)
  have f: "fst (loop r s) = fst (handleButtonEvent (millis_btn r) (pin_sw r) ?s3)"
    by (simp add: loop_def Let_def split_def)
  have "keys_of (snd (loop r s)) =
      (if connectionState ?s2 = CONNECTED then keys_of (snd (handleEncoderChange (irq_compare r) (irq_assign r) ?s2)) else [])
      @ keys_of (snd (handleButtonEvent (millis_btn r) (pin_sw r) ?s3))"
    by (simp add: loop_def Let_def split_def keys_of_append keys_updateConnectionState
        keys_updateLED)
  then have k: "filter (\<lambda>k. k = KEY_RETURN) (keys_of (snd (loop r s))) =
      keys_of (snd (handleButtonEvent (millis_btn r) (pin_sw r) ?s3))"
    by (simp add: filter_return_encoder keys_handleButtonEvent)
  from b c f k show ?thesis by blast
qed

lemma handleButtonEvent_confirm_down:
  assumes "buttonState s = BUTTON_DEBOUNCING_DOWN"
    and "buttonDebounceTime < now - buttonStateChangeTime s"
  shows "handleButtonEvent now LOW s =
           (s\<lparr>buttonState := BUTTON_DOWN, buttonEventProcessed := False\<rparr>,
            [Println ''Button pressed (debounced)''])"
  using assms by (simp add: handleButtonEvent_def)

lemma handleButtonEvent_deliver:
  assumes "buttonState s = BUTTON_DOWN" and "connectionState s = CONNECTED"
    and "\<not> buttonEventProcessed s"
  shows "handleButtonEvent now sw s =
           (s\<lparr>buttonEventProcessed := True, leds0 := colorConnected\<rparr>,
            [Show colorActivity, Println ''Sending ENTER key'', Write KEY_RETURN, Delay 10,
             Show colorConnected])"
  using assms by (simp add: handleButtonEvent_def)

lemma handleButtonEvent_keeps_pending:
  assumes "\<not> buttonEventProcessed s"
    and "\<not> (buttonState s = BUTTON_DOWN \<and> connectionState s = CONNECTED)"
  shows "\<not> buttonEventProcessed (fst (handleButtonEvent now sw s))
       \<and> keys_of (snd (handleButtonEvent now sw s)) = []"
  using assms by (cases "buttonState s") (auto simp: handleButtonEvent_def)

lemma step_undelivered:
  assumes "\<not> delivering ev s" and "\<not> buttonEventProcessed s"
  shows "\<not> buttonEventProcessed (fst (step ev s))
       \<and> filter (\<lambda>k. k = KEY_RETURN) (keys_of (snd (step ev s))) = []"
proof (cases ev)
  case (EncoderIRQ pinA pinB now)
  have "buttonEventProcessed (encoderISR pinA pinB now s) = buttonEventProcessed s"
    using button_encoderISR [of pinA pinB now s] by (simp add: button_def)
  with assms(2) EncoderIRQ show ?thesis by simp
next
  case (ButtonIRQ now sw)
  have "buttonEventProcessed (buttonISR now sw s) = buttonEventProcessed s"
    by (cases "buttonState s") (simp_all add: buttonISR_def)
  with assms(2) ButtonIRQ show ?thesis by simp
next
  case (Tick r)
  obtain s3 where b: "button s3 = button s"
    and c: "connectionState s3 =
         connectionState (fst (updateConnectionState (linked r) (millis_disc r) (millis_conn r) s))"
    and f: "fst (loop r s) = fst (handleButtonEvent (millis_btn r) (pin_sw r) s3)"
    and k: "filter (\<lambda>k. k = KEY_RETURN) (keys_of (snd (loop r s))) =
         keys_of (snd (handleButtonEvent (millis_btn r) (pin_sw r) s3))"
    using loop_button_part [of s r] by blast
  have "\<not> buttonEventProcessed s3"
    using b assms(2) by (simp add: button_def)
  moreover have "\<not> (buttonState s3 = BUTTON_DOWN \<and> connectionState s3 = CONNECTED)"
    using b c assms(1) Tick by (simp add: button_def)
  ultimately have "\<not> buttonEventProcessed (fst (handleButtonEvent (millis_btn r) (pin_sw r) s3))
       \<and> keys_of (snd (handleButtonEvent (millis_btn r) (pin_sw r) s3)) = []"
    by (rule handleButtonEvent_keeps_pending)
  then show ?thesis
    using Tick f k by simp
qed

lemma keys_run_Cons:
  "keys_of (snd (run (ev # evs) s)) =
     keys_of (snd (step ev s)) @ keys_of (snd (run evs (fst (step ev s))))"
  by (simp add: split_def Let_def keys_of_append)

lemma fst_run_Cons: "fst (run (ev # evs) s) = fst (run evs (fst (step ev s)))"
  by (simp add: split_def Let_def)

lemma run_undelivered:
  "undelivered evs s \<Longrightarrow> \<not> buttonEventProcessed s \<Longrightarrow>
   \<not> buttonEventProcessed (fst (run evs s))
   \<and> filter (\<lambda>k. k = KEY_RETURN) (keys_of (snd (run evs s))) = []"
proof (induction evs arbitrary: s)
  case Nil
  then show ?case by simp
next
  case (Cons ev evs)
  from Cons.prems have nd: "\<not> delivering ev s" and rest: "undelivered evs (fst (step ev s))"
    by simp_all
  from step_undelivered [OF nd Cons.prems(2)]
  have p: "\<not> buttonEventProcessed (fst (step ev s))"
    and k: "filter (\<lambda>k. k = KEY_RETURN) (keys_of (snd (step ev s))) = []"
    by simp_all
  from Cons.IH [OF rest p] k show ?case
    by (simp add: keys_run_Cons fst_run_Cons del: run.simps)
qed

lemma loop_delivers:
  assumes "delivering (Tick r) s" and "\<not> buttonEventProcessed s"
  shows "filter (\<lambda>k. k = KEY_RETURN) (keys_of (snd (loop r s))) = [KEY_RETURN]
       \<and> buttonEventProcessed (fst (loop r s))"
proof -
  obtain s3 where b: "button s3 = button s"
    and c: "connectionState s3 =
         connectionState (fst (updateConnectionState (linked r) (millis_disc r) (millis_conn r) s))"
    and f: "fst (loop r s) = fst (handleButtonEvent (millis_btn r) (pin_sw r) s3)"
    and k: "filter (\<lambda>k. k = KEY_RETURN) (keys_of (snd (loop r s))) =
         keys_of (snd (handleButtonEvent (millis_btn r) (pin_sw r) s3))"
    using loop_button_part [of s r] by blast
  have "buttonState s3 = BUTTON_DOWN" and "connectionState s3 = CONNECTED"
    and "\<not> buttonEventProcessed s3"
    using assms b c by (simp_all add: button_def)
  then show ?thesis
    using f k by (simp add: handleButtonEvent_deliver)
qed

lemma delivered_simps:
  "buttonState (delivered s) = buttonState s"
  "connectionState (delivered s) = connectionState s"
  "buttonEventProcessed (delivered s)"
  by (simp_all add: delivered_def)

lemma updateConnectionState_delivered:
  "updateConnectionState up t_disc now (delivered s) =
     (delivered (fst (updateConnectionState up t_disc now s)),
      snd (updateConnectionState up t_disc now s))"
  by (simp add: updateConnectionState_def delivered_def Let_def split_def)

lemma updateLED_delivered:
  "updateLED now (delivered s) = (delivered (fst (updateLED now s)), snd (updateLED now s))"
  by (simp add: updateLED_def delivered_def Let_def)

lemma replay_flag:
  "replay xs (s\<lparr>buttonEventProcessed := b\<rparr>) = (replay xs s)\<lparr>buttonEventProcessed := b\<rparr>"
proof (induction xs arbitrary: s)
  case Nil
  then show ?case by simp
next
  case (Cons x xs)
  obtain pinA pinB now where x: "x = (pinA, pinB, now)" by (cases x)
  have "encoderISR pinA pinB now (s\<lparr>buttonEventProcessed := b\<rparr>)
      = (encoderISR pinA pinB now s)\<lparr>buttonEventProcessed := b\<rparr>"
    by (simp add: encoderISR_def Let_def)
  with Cons.IH [of "encoderISR pinA pinB now s"] show ?case
    by (simp add: x)
qed

lemma handleEncoderChange_delivered:
  "handleEncoderChange before_compare before_assign (delivered s) =
     (delivered (fst (handleEncoderChange before_compare before_assign s)),
      snd (handleEncoderChange before_compare before_assign s))"
  by (simp add: handleEncoderChange_def delivered_def Let_def replay_flag)

lemma encoderISR_delivered:
  "encoderISR pinA pinB now (delivered s) = delivered (encoderISR pinA pinB now s)"
  by (simp add: encoderISR_def delivered_def Let_def)

lemma buttonISR_delivered: "buttonISR now sw (delivered s) = delivered (buttonISR now sw s)"
  by (cases "buttonState s") (simp_all add: buttonISR_def delivered_def)

lemma handleButtonEvent_delivered:
  assumes "buttonState s = BUTTON_UP \<or> buttonState s = BUTTON_DEBOUNCING_DOWN"
  shows "snd (handleButtonEvent now sw (delivered s)) = snd (handleButtonEvent now sw s)
       \<and> (fst (handleButtonEvent now sw (delivered s)) = fst (handleButtonEvent now sw s)
          \<or> fst (handleButtonEvent now sw (delivered s)) = delivered (fst (handleButtonEvent now sw s))
            \<and> (buttonState (fst (handleButtonEvent now sw s)) = BUTTON_UP
               \<or> buttonState (fst (handleButtonEvent now sw s)) = BUTTON_DEBOUNCING_DOWN))"
proof (cases "buttonState s = BUTTON_UP")
  case True
  then show ?thesis
    by (simp add: handleButtonEvent_def delivered_def)
next
  case False
  with assms have dd: "buttonState s = BUTTON_DEBOUNCING_DOWN"
    by simp
  show ?thesis
  proof (cases "buttonDebounceTime < now - buttonStateChangeTime s")
    case True
    then show ?thesis
      using dd by (cases sw) (simp_all add: handleButtonEvent_def delivered_def)
  next
    case False
    then show ?thesis
      using dd by (simp add: handleButtonEvent_def delivered_def)
  qed
qed


lemma loop_delivered:
  assumes "buttonState s = BUTTON_UP \<or> buttonState s = BUTTON_DEBOUNCING_DOWN"
  shows "snd (loop r (delivered s)) = snd (loop r s)
       \<and> (fst (loop r (delivered s)) = fst (loop r s)
          \<or> fst (loop r (delivered s)) = delivered (fst (loop r s))
            \<and> (buttonState (fst (loop r s)) = BUTTON_UP
               \<or> buttonState (fst (loop r s)) = BUTTON_DEBOUNCING_DOWN))"
proof -
  let ?s1 = "fst (updateConnectionState (linked r) (millis_disc r) (millis_conn r) s)"
  let ?s2 = "fst (updateLED (millis_led r) ?s1)"
  let ?s3 = "if connectionState ?s2 = CONNECTED then fst (handleEncoderChange (irq_compare r) (irq_assign r) ?s2)
    else ?s2"
  have "button ?s3 = button s"
    by (simp add: button_handleEncoderChange button_updateLED button_updateConnectionState)
  then have st: "buttonState ?s3 = BUTTON_UP \<or> buttonState ?s3 = BUTTON_DEBOUNCING_DOWN"
    using assms by (simp add: button_def)
  have l: "loop r s =
      (fst (handleButtonEvent (millis_btn r) (pin_sw r) ?s3),
       snd (updateConnectionState (linked r) (millis_disc r) (millis_conn r) s)
       @ snd (updateLED (millis_led r) ?s1)
       @ (if connectionState ?s2 = CONNECTED
          then snd (handleEncoderChange (irq_compare r) (irq_assign r) ?s2) else [])
       @ snd (handleButtonEvent (millis_btn r) (pin_sw r) ?s3) @ [Delay 5])"
    by (simp add: loop_def Let_def split_def)
  have l': "loop r (delivered s) =
      (fst (handleButtonEvent (millis_btn r) (pin_sw r) (delivered ?s3)),
       snd (updateConnectionState (linked r) (millis_disc r) (millis_conn r) s)
       @ snd (updateLED (millis_led r) ?s1)
       @ (if connectionState ?s2 = CONNECTED
          then snd (handleEncoderChange (irq_compare r) (irq_assign r) ?s2) else [])
       @ snd (handleButtonEvent (millis_btn r) (pin_sw r) (delivered ?s3)) @ [Delay 5])"
    by (simp add: loop_def Let_def split_def updateConnectionState_delivered
        updateLED_delivered handleEncoderChange_delivered delivered_simps)
  note h = handleButtonEvent_delivered [OF st, of "millis_btn r" "pin_sw r"]
  have f: "fst (loop r s) = fst (handleButtonEvent (millis_btn r) (pin_sw r) ?s3)"
    by (simp only: l fst_conv)
  have f': "fst (loop r (delivered s)) =
      fst (handleButtonEvent (millis_btn r) (pin_sw r) (delivered ?s3))"
    by (simp only: l' fst_conv)
  have e: "snd (loop r (delivered s)) = snd (loop r s)"
    using h by (simp only: l l' snd_conv)
  from h have "fst (loop r (delivered s)) = fst (loop r s)
          \<or> fst (loop r (delivered s)) = delivered (fst (loop r s))
            \<and> (buttonState (fst (loop r s)) = BUTTON_UP
               \<or> buttonState (fst (loop r s)) = BUTTON_DEBOUNCING_DOWN)"
    by (simp only: f f')
  with e show ?thesis by blast
qed

lemma step_delivered:
  assumes "buttonState s = BUTTON_UP \<or> buttonState s = BUTTON_DEBOUNCING_DOWN"
  shows "snd (step ev (delivered s)) = snd (step ev s)
       \<and> (fst (step ev (delivered s)) = fst (step ev s)
          \<or> fst (step ev (delivered s)) = delivered (fst (step ev s))
            \<and> (buttonState (fst (step ev s)) = BUTTON_UP
               \<or> buttonState (fst (step ev s)) = BUTTON_DEBOUNCING_DOWN))"
proof (cases ev)
  case (EncoderIRQ pinA pinB now)
  have "buttonState (encoderISR pinA pinB now s) = buttonState s"
    using button_encoderISR [of pinA pinB now s] by (simp add: button_def)
  with assms EncoderIRQ show ?thesis
    by (simp add: encoderISR_delivered)
next
  case (ButtonIRQ now sw)
  have "buttonState (buttonISR now sw s) = BUTTON_UP
      \<or> buttonState (buttonISR now sw s) = BUTTON_DEBOUNCING_DOWN"
    using assms by (auto simp: buttonISR_def)
  with ButtonIRQ show ?thesis
    by (simp add: buttonISR_delivered)
next
  case (Tick r)
  with loop_delivered [OF assms, of r] show ?thesis by simp
qed

lemma snd_run_Cons:
  "snd (run (ev # evs) s) = snd (step ev s) @ snd (run evs (fst (step ev s)))"
  by (simp add: split_def Let_def)

lemma run_delivered:
  "buttonState s = BUTTON_UP \<or> buttonState s = BUTTON_DEBOUNCING_DOWN \<Longrightarrow>
   snd (run evs (delivered s)) = snd (run evs s)"
proof (induction evs arbitrary: s)
  case Nil
  then show ?case by simp
next
  case (Cons ev evs)
  note st = step_delivered [OF Cons.prems, of ev]
  from st have e: "snd (step ev (delivered s)) = snd (step ev s)"
    by blast
  from st consider
    (same) "fst (step ev (delivered s)) = fst (step ev s)"
    | (flag) "fst (step ev (delivered s)) = delivered (fst (step ev s))"
        "buttonState (fst (step ev s)) = BUTTON_UP
         \<or> buttonState (fst (step ev s)) = BUTTON_DEBOUNCING_DOWN"
    by blast
  then show ?case
  proof cases
    case same
    with e show ?thesis
      by (simp only: snd_run_Cons)
  next
    case flag
    from Cons.IH [OF flag(2)] flag(1) e show ?thesis
      by (simp only: snd_run_Cons)
  qed
qed

text \<open>
  Claim C10. Let the dispatcher confirm \<open>Down\<close> (the button is in \<open>DebouncingDown\<close>, the
  debounce time has passed, the pin reads low), whatever the connection state is.
  \<^item> The button is then in \<open>Down\<close> with \<open>buttonEventProcessed\<close> false.
  \<^item> Through every run of interrupts and loop iterations none of which finds the
    button in \<open>Down\<close> while \<open>CONNECTED\<close>, no button key is written and the flag stays
    false: the press is kept.
  \<^item> The first loop iteration after such a run that does find the button in \<open>Down\<close>
    while \<open>CONNECTED\<close> writes the button key, once, and sets the flag.
  \<^item> If such a run ends with the button back in \<open>Up\<close>, everything the sketch does
    from then on is what it does from the same state with the flag set: the press is
    gone without a key.
\<close>

theorem pending_press_waits_for_connected_down:
  assumes "buttonState s = BUTTON_DEBOUNCING_DOWN"
    and "buttonDebounceTime < now - buttonStateChangeTime s"
    and "s0 = fst (handleButtonEvent now LOW s)"
    and "undelivered evs s0"
    and "s1 = fst (run evs s0)"
  shows "buttonState s0 = BUTTON_DOWN \<and> \<not> buttonEventProcessed s0
       \<and> filter (\<lambda>k. k = KEY_RETURN) (keys_of (snd (run evs s0))) = []
       \<and> \<not> buttonEventProcessed s1
       \<and> (delivering (Tick r) s1 \<longrightarrow>
            filter (\<lambda>k. k = KEY_RETURN) (keys_of (snd (loop r s1))) = [KEY_RETURN]
            \<and> buttonEventProcessed (fst (loop r s1)))
       \<and> (buttonState s1 = BUTTON_UP \<longrightarrow>
            snd (run later s1) = snd (run later (delivered s1)))"
proof -
  have s0: "buttonState s0 = BUTTON_DOWN \<and> \<not> buttonEventProcessed s0"
    using assms(1-3) by (simp add: handleButtonEvent_confirm_down)
  then have kept: "\<not> buttonEventProcessed s1
      \<and> filter (\<lambda>k. k = KEY_RETURN) (keys_of (snd (run evs s0))) = []"
    using run_undelivered [OF assms(4)] assms(5) by simp
  have "filter (\<lambda>k. k = KEY_RETURN) (keys_of (snd (loop r s1))) = [KEY_RETURN]
      \<and> buttonEventProcessed (fst (loop r s1))" if "delivering (Tick r) s1"
    using that kept by (simp add: loop_delivers)
  moreover have "snd (run later s1) = snd (run later (delivered s1))"
    if "buttonState s1 = BUTTON_UP"
    using that run_delivered [of s1 later] by simp
  ultimately show ?thesis
    using s0 kept by blast
qed

lemmas sketch_defs =
  loop_def updateConnectionState_def updateLED_def handleEncoderChange_def
  handleButtonEvent_def buttonISR_def encoderISR_def sketch_setup_def initial_def
  buttonDebounceTime_def encoderDebounceTime_def RECONNECT_DELAY_def tick_at_def

lemma booted_eq:
  "booted = initial\<lparr>connectionState := CONNECTING, lastConnectionAttempt := 100,
     leds0 := colorDisconnected\<rparr>"
  by (simp add: booted_def sketch_setup_def initial_def)

lemma pressed_offline_eq:
  "pressed_offline = initial\<lparr>connectionState := CONNECTING, lastConnectionAttempt := 100,
     leds0 := colorDisconnected, buttonState := BUTTON_DOWN, buttonStateChangeTime := 2000,
     buttonEventProcessed := False\<rparr>"
  by (simp add: pressed_offline_def booted_eq sketch_defs)

text \<open>
  The theorem on \<open>pressed_offline\<close>. With the link still down at 2057 ms the press is
  kept, and the iteration at 2063 ms that finds the link up writes the key. If
  instead the pin rises at 2060 ms and the release is confirmed at 2111 ms with the
  link down, no key is written then, and none by the iteration at 2120 ms that finds
  the link up.
\<close>

theorem pending_press_waits_for_connected_down_witness:
  "buttonState (buttonISR 2000 LOW booted) = BUTTON_DEBOUNCING_DOWN
   \<and> buttonDebounceTime < 2051 - buttonStateChangeTime (buttonISR 2000 LOW booted)
   \<and> undelivered [tick_at False 2057 LOW] pressed_offline
   \<and> delivering (tick_at True 2063 LOW) (fst (run [tick_at False 2057 LOW] pressed_offline))
   \<and> keys_of (snd (step (tick_at True 2063 LOW)
        (fst (run [tick_at False 2057 LOW] pressed_offline)))) = [KEY_RETURN]
   \<and> undelivered [tick_at False 2057 LOW, ButtonIRQ 2060 HIGH, tick_at False 2111 HIGH]
        pressed_offline
   \<and> buttonState (fst (run [tick_at False 2057 LOW, ButtonIRQ 2060 HIGH,
        tick_at False 2111 HIGH] pressed_offline)) = BUTTON_UP
   \<and> keys_of (snd (run [tick_at False 2057 LOW, ButtonIRQ 2060 HIGH,
        tick_at False 2111 HIGH] pressed_offline)) = []
   \<and> keys_of (snd (run [tick_at True 2120 HIGH] (fst (run [tick_at False 2057 LOW,
        ButtonIRQ 2060 HIGH, tick_at False 2111 HIGH] pressed_offline)))) = []"
proof -
  let ?s = "buttonISR 2000 LOW booted"
  let ?A = "[tick_at False 2057 LOW]"
  let ?B = "[tick_at False 2057 LOW, ButtonIRQ 2060 HIGH, tick_at False 2111 HIGH]"
  let ?r = "\<lparr>linked = True, millis_disc = 2063, millis_conn = 2063, millis_led = 2063,
    irq_compare = [], irq_assign = [], millis_btn = 2063, pin_sw = LOW\<rparr>"
  have h1: "buttonState ?s = BUTTON_DEBOUNCING_DOWN"
    by (simp add: booted_eq sketch_defs)
  have h2: "buttonDebounceTime < 2051 - buttonStateChangeTime ?s"
    by (simp add: booted_eq sketch_defs)
  have h3: "pressed_offline = fst (handleButtonEvent 2051 LOW ?s)"
    by (simp add: pressed_offline_def)
  have sA: "fst (run ?A pressed_offline) = pressed_offline\<lparr>leds0 := colorConnecting\<rparr>"
    by (simp add: pressed_offline_eq sketch_defs)
  have uA: "undelivered ?A pressed_offline"
    by (simp add: pressed_offline_eq sketch_defs)
  have dA: "delivering (Tick ?r) (fst (run ?A pressed_offline))"
    unfolding sA by (simp add: pressed_offline_eq sketch_defs)
  have sB: "fst (run ?B pressed_offline) = pressed_offline\<lparr>buttonState := BUTTON_UP,
      buttonStateChangeTime := 2060, leds0 := colorConnecting\<rparr>"
    by (simp add: pressed_offline_eq sketch_defs)
  have uB: "undelivered ?B pressed_offline"
    by (simp add: pressed_offline_eq sketch_defs)
  have upB: "buttonState (fst (run ?B pressed_offline)) = BUTTON_UP"
    unfolding sB by simp
  note instA = pending_press_waits_for_connected_down [OF h1 h2 h3 uA refl, of ?r]
  note instB = pending_press_waits_for_connected_down [OF h1 h2 h3 uB refl,
      of _ "[tick_at True 2120 HIGH]"]
  have "filter (\<lambda>k. k = KEY_RETURN) (keys_of (snd (loop ?r (fst (run ?A pressed_offline)))))
      = [KEY_RETURN]"
    using instA dA by blast
  then have kA: "keys_of (snd (loop ?r (fst (run ?A pressed_offline)))) = [KEY_RETURN]"
    unfolding sA by (simp add: pressed_offline_eq sketch_defs)
  have "filter (\<lambda>k. k = KEY_RETURN) (keys_of (snd (run ?B pressed_offline))) = []"
    using instB by blast
  then have kB: "keys_of (snd (run ?B pressed_offline)) = []"
    by (simp add: pressed_offline_eq sketch_defs)
  have "snd (run [tick_at True 2120 HIGH] (fst (run ?B pressed_offline)))
      = snd (run [tick_at True 2120 HIGH] (delivered (fst (run ?B pressed_offline))))"
    using instB upB by blast
  then have kL: "keys_of (snd (run [tick_at True 2120 HIGH] (fst (run ?B pressed_offline)))) = []"
    unfolding sB by (simp add: delivered_def pressed_offline_eq sketch_defs)
  from h1 h2 uA dA kA uB upB kB kL show ?thesis
    by (simp add: tick_at_def)
qed

text \<open>
  Claim C3 against the code, on \<open>short_press\<close>. The link is up in every iteration and
  the button is held low for 52 ms, longer than \<open>buttonDebounceTime\<close>. It goes through
  the whole cycle: \<open>DebouncingDown\<close> at 2000 ms, \<open>Down\<close> confirmed by the iteration at
  2051 ms, \<open>DebouncingUp\<close> by the interrupt at 2052 ms, \<open>Up\<close> confirmed at 2105 ms. The
  key is written by an iteration that finds the button in \<open>Down\<close>, and there is none:
  the run writes no key at all. On \<open>held_press\<close>, where the button is released 8 ms
  later, the iteration at 2057 ms finds it in \<open>Down\<close> and the run writes the key once.
\<close>

theorem short_press_writes_no_key:
  "buttonState link_up = BUTTON_UP
   \<and> buttonState (fst (run (take 1 short_press) link_up)) = BUTTON_DEBOUNCING_DOWN
   \<and> buttonState (fst (run (take 10 short_press) link_up)) = BUTTON_DOWN
   \<and> buttonState (fst (run (take 11 short_press) link_up)) = BUTTON_DEBOUNCING_UP
   \<and> buttonState (fst (run short_press link_up)) = BUTTON_UP
   \<and> list_all (\<lambda>(c, ks). c = CONNECTED) (trace short_press link_up)
   \<and> keys_of (snd (run short_press link_up)) = []
   \<and> buttonState (fst (run held_press link_up)) = BUTTON_UP
   \<and> keys_of (snd (run held_press link_up)) = [KEY_RETURN]"
  by (simp add: short_press_def held_press_def link_up_eq sketch_defs)

section \<open>Reporting encoder steps\<close>

lemma run_append:
  "run (evs @ evs') s =
     (fst (run evs' (fst (run evs s))), snd (run evs s) @ snd (run evs' (fst (run evs s))))"
  by (induction evs arbitrary: s) (simp_all add: split_def Let_def)

lemma run_irqs: "run (irqs xs) s = (replay xs s, [])"
  by (induction xs arbitrary: s) (auto simp: irqs_def split_def Let_def)

lemma legal_counts_length:
  "legal_sequence prev t0 xs \<Longrightarrow> cw_count prev xs + ccw_count prev xs = length xs"
proof (induction xs arbitrary: prev t0)
  case Nil
  then show ?case by simp
next
  case (Cons x xs)
  obtain a b t where x: "x = (a, b, t)" by (cases x)
  have excl: "\<not> (spec_cw prev (current_AB a b) \<and> spec_ccw prev (current_AB a b))"
    using clockwise_not_counter by (simp add: spec_cw_clockwise spec_ccw_counter_clockwise)
  from Cons.prems have one: "spec_cw prev (current_AB a b) \<or> spec_ccw prev (current_AB a b)"
    and rest: "legal_sequence (current_AB a b) t xs"
    by (simp_all add: x)
  from Cons.IH [OF rest] one excl show ?case
    by (auto simp: x)
qed

lemma handleEncoderChange_report:
  assumes "encoderPos s \<noteq> lastReportedPos s"
  shows "fst (handleEncoderChange before_compare before_assign s) =
     (replay before_assign (replay before_compare s))
       \<lparr>lastReportedPos := encoderPos (replay before_assign (replay before_compare s)),
        leds0 := colorConnected\<rparr>"
  using assms by (simp add: handleEncoderChange_def Let_def)

lemma arrows_simps:
  "arrows [] = []" "arrows [KEY_RIGHT_ARROW] = [KEY_RIGHT_ARROW]"
  "arrows [KEY_LEFT_ARROW] = [KEY_LEFT_ARROW]" "arrows [KEY_RETURN] = []"
  "arrows (ks @ ks') = arrows ks @ arrows ks'"
  by (simp_all add: arrows_def)

text \<open>
  The handler reads and writes the variables of the decoder only, and the functions
  of a loop iteration before and after \<open>handleEncoderChange\<close> leave them and the
  reported position alone.
\<close>

lemma encoder_encoderISR:
  "encoder s = encoder s' \<Longrightarrow>
   encoder (encoderISR pinA pinB now s) = encoder (encoderISR pinA pinB now s')"
  by (simp add: encoder_def encoderISR_def Let_def)

lemma encoder_replay:
  "encoder s = encoder s' \<Longrightarrow> encoder (replay xs s) = encoder (replay xs s')"
proof (induction xs arbitrary: s s')
  case Nil
  then show ?case by simp
next
  case (Cons x xs)
  obtain pinA pinB now where x: "x = (pinA, pinB, now)" by (cases x)
  from Cons.IH [OF encoder_encoderISR [OF Cons.prems, of pinA pinB now]] show ?case
    by (simp add: x)
qed

lemma encoder_handleButtonEvent:
  "encoderPos (fst (handleButtonEvent now sw s)) = encoderPos s
   \<and> lastReportedPos (fst (handleButtonEvent now sw s)) = lastReportedPos s"
  by (cases "buttonState s") (simp_all add: handleButtonEvent_def)

lemma encoder_updateConnectionState:
  "encoder (fst (updateConnectionState up t_disc now s)) = encoder s
   \<and> lastReportedPos (fst (updateConnectionState up t_disc now s)) = lastReportedPos s"
  by (simp add: encoder_def updateConnectionState_def Let_def split_def)

lemma encoder_updateLED:
  "encoder (fst (updateLED now s)) = encoder s
   \<and> lastReportedPos (fst (updateLED now s)) = lastReportedPos s"
  by (simp add: encoder_def updateLED_def Let_def)

lemma loop_reports:
  assumes "connectionState (fst (updateConnectionState (linked r) (millis_disc r)
      (millis_conn r) s)) = CONNECTED"
    and "encoderPos s \<noteq> lastReportedPos s"
  shows "arrows (keys_of (snd (loop r s))) =
           [if sint (lastReportedPos s) < sint (encoderPos (replay (irq_compare r) s))
            then KEY_RIGHT_ARROW else KEY_LEFT_ARROW]
       \<and> lastReportedPos (fst (loop r s))
           = encoderPos (replay (irq_assign r) (replay (irq_compare r) s))
       \<and> encoderPos (fst (loop r s))
           = encoderPos (replay (irq_assign r) (replay (irq_compare r) s))"
proof -
  let ?s1 = "fst (updateConnectionState (linked r) (millis_disc r) (millis_conn r) s)"
  let ?s2 = "fst (updateLED (millis_led r) ?s1)"
  let ?s3 = "fst (handleEncoderChange (irq_compare r) (irq_assign r) ?s2)"
  have c2: "connectionState ?s2 = CONNECTED"
    using assms(1) by (simp add: connectionState_conn conn_updateLED)
  have e2: "encoder ?s2 = encoder s" and l2: "lastReportedPos ?s2 = lastReportedPos s"
    by (simp_all add: encoder_updateLED encoder_updateConnectionState)
  from e2 have p2: "encoderPos ?s2 = encoderPos s"
    by (simp add: encoder_def)
  have c1: "encoder (replay (irq_compare r) ?s2) = encoder (replay (irq_compare r) s)"
    using e2 by (rule encoder_replay)
  then have ec: "encoderPos (replay (irq_compare r) ?s2) = encoderPos (replay (irq_compare r) s)"
    by (simp add: encoder_def)
  have "encoder (replay (irq_assign r) (replay (irq_compare r) ?s2))
      = encoder (replay (irq_assign r) (replay (irq_compare r) s))"
    using c1 by (rule encoder_replay)
  then have ea: "encoderPos (replay (irq_assign r) (replay (irq_compare r) ?s2))
      = encoderPos (replay (irq_assign r) (replay (irq_compare r) s))"
    by (simp add: encoder_def)
  have ne: "encoderPos ?s2 \<noteq> lastReportedPos ?s2"
    using assms(2) p2 l2 by simp
  have f: "fst (loop r s) = fst (handleButtonEvent (millis_btn r) (pin_sw r) ?s3)"
    using c2 by (simp add: loop_def Let_def split_def)
  have k: "keys_of (snd (loop r s))
      = keys_of (snd (handleEncoderChange (irq_compare r) (irq_assign r) ?s2))
      @ keys_of (snd (handleButtonEvent (millis_btn r) (pin_sw r) ?s3))"
    using assms(1) by (simp add: keys_loop Let_def)
  have "arrows (keys_of (snd (loop r s)))
      = arrows (keys_of (snd (handleEncoderChange (irq_compare r) (irq_assign r) ?s2)))"
    unfolding k by (simp add: arrows_simps keys_handleButtonEvent)
  also have "\<dots> = [if sint (lastReportedPos s) < sint (encoderPos (replay (irq_compare r) s))
      then KEY_RIGHT_ARROW else KEY_LEFT_ARROW]"
    using ne by (simp add: keys_handleEncoderChange ec l2 arrows_simps)
  finally have a: "arrows (keys_of (snd (loop r s))) =
      [if sint (lastReportedPos s) < sint (encoderPos (replay (irq_compare r) s))
       then KEY_RIGHT_ARROW else KEY_LEFT_ARROW]" .
  have e3: "encoderPos ?s3 = encoderPos (replay (irq_assign r) (replay (irq_compare r) s))
      \<and> lastReportedPos ?s3 = encoderPos (replay (irq_assign r) (replay (irq_compare r) s))"
    using ea by (simp add: handleEncoderChange_report [OF ne])
  show ?thesis
    using a e3 unfolding f by (simp add: encoder_handleButtonEvent)
qed

lemma loop_settled:
  assumes "settled s" and "linked r"
  shows "settled (fst (loop r s)) \<and> keys_of (snd (loop r s)) = []
       \<and> encoderPos (fst (loop r s)) = encoderPos s"
proof -
  have u: "updateConnectionState True (millis_disc r) (millis_conn r) s = (s, [])"
    using assms by (simp add: settled_def updateConnectionState_def)
  have l: "updateLED (millis_led r) s = (s\<lparr>leds0 := colorConnected\<rparr>, [Show colorConnected])"
    using assms by (simp add: settled_def updateLED_def)
  have "loop r s = (s\<lparr>leds0 := colorConnected\<rparr>, [Show colorConnected, Delay 5])"
    using assms
    by (simp add: loop_def u l settled_def handleEncoderChange_def handleButtonEvent_def)
  with assms show ?thesis
    by (simp add: settled_def)
qed

lemma run_settled:
  "settled s \<Longrightarrow> list_all linked rs \<Longrightarrow>
   settled (fst (run (map Tick rs) s)) \<and> keys_of (snd (run (map Tick rs) s)) = []
   \<and> encoderPos (fst (run (map Tick rs) s)) = encoderPos s"
proof (induction rs arbitrary: s)
  case Nil
  then show ?case by simp
next
  case (Cons r rs)
  from Cons.prems have r: "linked r" and rest: "list_all linked rs"
    by simp_all
  note one = loop_settled [OF Cons.prems(1) r]
  from one have st: "settled (fst (loop r s))"
    by blast
  from Cons.IH [OF st rest] one show ?case
    by (simp add: split_def Let_def keys_of_append)
qed

lemma sketch_setup_state:
  "fst (sketch_setup t0 initial) =
     initial\<lparr>leds0 := colorDisconnected, connectionState := CONNECTING,
       lastConnectionAttempt := t0\<rparr>"
  by (simp add: sketch_setup_def)

lemma connected_quiet_linked: "list_all connected_quiet rs \<Longrightarrow> list_all linked rs"
  by (induction rs) (simp_all add: connected_quiet_def)

lemma first_report:
  assumes "conn s = (CONNECTING, t, False)" and "buttonState s = BUTTON_UP"
    and "connected_quiet r"
    and "sint (lastReportedPos s) < sint (encoderPos s)"
  shows "settled (fst (loop r s)) \<and> keys_of (snd (loop r s)) = [KEY_RIGHT_ARROW]
       \<and> encoderPos (fst (loop r s)) = encoderPos s"
proof -
  have ne: "encoderPos s \<noteq> lastReportedPos s"
    using assms(4) by auto
  have u: "updateConnectionState True (millis_disc r) (millis_conn r) s =
      (s\<lparr>connectionState := CONNECTED, wasConnected := True\<rparr>, [Println ''BLE connected!''])"
    using assms(1) by (simp add: conn_def updateConnectionState_def)
  show ?thesis
    using assms(2,3,4) ne
    by (simp add: connected_quiet_def loop_def u updateLED_def handleEncoderChange_def
        handleButtonEvent_def settled_def)
qed

lemma sint_of_nat_32:
  assumes "n < 2 ^ 31"
  shows "sint (of_nat n :: 32 word) = int n"
proof -
  have "int n < 2 ^ 31"
    using assms by (metis of_nat_less_iff of_nat_numeral of_nat_power)
  then have "sint (word_of_int (int n) :: 32 word) = int n"
    by (intro sint_of_int_32) simp_all
  then show ?thesis by simp
qed

lemma clockwise_steps_then_iterations:
  assumes "legal_sequence 0 0 xs" and "ccw_count 0 xs = 0"
    and "1 \<le> length xs" and "length xs < 2 ^ 31"
    and "length rs = length xs" and "list_all connected_quiet rs"
  shows "keys_of (snd (run (irqs xs @ map Tick rs) (fst (sketch_setup t0 initial))))
           = [KEY_RIGHT_ARROW]
       \<and> settled (fst (run (irqs xs @ map Tick rs) (fst (sketch_setup t0 initial))))
       \<and> encoderPos (fst (run (irqs xs @ map Tick rs) (fst (sketch_setup t0 initial))))
           = of_nat (length xs)"
proof -
  let ?s0 = "fst (sketch_setup t0 initial)"
  let ?sN = "replay xs ?s0"
  have s0: "old_AB ?s0 = 0" "lastEncoderEvent ?s0 = 0" "encoderPos ?s0 = 0"
    "lastReportedPos ?s0 = 0" "conn ?s0 = (CONNECTING, t0, False)"
    "button ?s0 = (BUTTON_UP, 0, True)"
    unfolding sketch_setup_state by (simp_all add: initial_def conn_def button_def)
  have "cw_count 0 xs + ccw_count 0 xs = length xs"
    using assms(1) by (rule legal_counts_length)
  then have cw: "cw_count 0 xs = length xs"
    using assms(2) by simp
  have "legal_sequence (old_AB ?s0) (lastEncoderEvent ?s0) xs"
    using assms(1) by (simp only: s0)
  from replay_legal_position [OF this]
  have pos: "encoderPos ?sN = of_nat (length xs)"
    by (simp only: s0 cw assms(2)) simp
  have frame: "conn ?sN = (CONNECTING, t0, False)" "buttonState ?sN = BUTTON_UP"
    "lastReportedPos ?sN = 0"
    using replay_frame [of xs ?s0] s0 by (simp_all add: button_def)
  have sp: "sint (encoderPos ?sN) = int (length xs)"
    unfolding pos using assms(4) by (rule sint_of_nat_32)
  have "0 < int (length xs)"
    using assms(3) by linarith
  then have gt: "sint (lastReportedPos ?sN) < sint (encoderPos ?sN)"
    unfolding frame(3) sp by simp
  obtain r rs' where rs: "rs = r # rs'"
    using assms(3,5) by (cases rs) simp_all
  have r: "connected_quiet r" and rest: "list_all linked rs'"
    using assms(6) by (simp_all add: rs connected_quiet_linked)
  note one = first_report [OF frame(1) frame(2) r gt]
  from one have st: "settled (fst (loop r ?sN))"
    by blast
  note more = run_settled [OF st rest]
  have ticks: "keys_of (snd (run (map Tick rs) ?sN)) = [KEY_RIGHT_ARROW]
      \<and> settled (fst (run (map Tick rs) ?sN))
      \<and> encoderPos (fst (run (map Tick rs) ?sN)) = of_nat (length xs)"
    using one more pos by (simp add: rs split_def Let_def keys_of_append)
  then show ?thesis
    by (simp add: run_append run_irqs)
qed

text \<open>
  Claim C1, as the code has it. Let a loop iteration leave \<open>updateConnectionState\<close>
  in the state \<open>CONNECTED\<close> and find the position different from the reported
  position. It writes exactly one arrow key, however large the difference: the right
  arrow when the position read at the comparison is the greater (as signed 32-bit
  values), the left arrow otherwise; and it sets \<open>lastReportedPos\<close> to the position
  read at the assignment, which is the position the iteration leaves. When no
  interrupt changes the position between the reads, the key is the one for the sign
  of the difference the iteration found, and \<open>lastReportedPos\<close> becomes the position
  it found. In particular, after \<^verbatim>\<open>setup\<close>, \<open>N\<close> accepted transitions
  (\<open>1 \<le> N < 2^31\<close>) that are clockwise steps from the pin pair \<open>00\<close>, the history of
  the fresh decoder, followed by \<open>N\<close> loop iterations that find the link up and have
  no encoder interrupt between the reads, write exactly one key, the right arrow,
  and leave \<open>lastReportedPos\<close> equal to the position \<open>N\<close>.
\<close>

theorem pending_steps_reported_by_one_key:
  assumes "connectionState (fst (updateConnectionState (linked r) (millis_disc r)
      (millis_conn r) s)) = CONNECTED"
    and "encoderPos s \<noteq> lastReportedPos s"
    and "legal_sequence 0 0 xs" and "ccw_count 0 xs = 0"
    and "1 \<le> length xs" and "length xs < 2 ^ 31"
    and "length rs = length xs" and "list_all connected_quiet rs"
    and "fin = run (irqs xs @ map Tick rs) (fst (sketch_setup t0 initial))"
  shows "arrows (keys_of (snd (loop r s))) =
           [if sint (lastReportedPos s) < sint (encoderPos (replay (irq_compare r) s))
            then KEY_RIGHT_ARROW else KEY_LEFT_ARROW]
       \<and> lastReportedPos (fst (loop r s))
           = encoderPos (replay (irq_assign r) (replay (irq_compare r) s))
       \<and> lastReportedPos (fst (loop r s)) = encoderPos (fst (loop r s))
       \<and> (encoderPos (replay (irq_compare r) s) = encoderPos s
          \<and> encoderPos (replay (irq_assign r) (replay (irq_compare r) s)) = encoderPos s
          \<longrightarrow> arrows (keys_of (snd (loop r s))) =
                [if sint (lastReportedPos s) < sint (encoderPos s) then KEY_RIGHT_ARROW
                 else KEY_LEFT_ARROW]
              \<and> lastReportedPos (fst (loop r s)) = encoderPos s)
       \<and> keys_of (snd fin) = [KEY_RIGHT_ARROW]
       \<and> lastReportedPos (fst fin) = encoderPos (fst fin)
       \<and> encoderPos (fst fin) = of_nat (length xs)"
proof -
  note one = loop_reports [OF assms(1,2)]
  from one have k: "arrows (keys_of (snd (loop r s))) =
           [if sint (lastReportedPos s) < sint (encoderPos (replay (irq_compare r) s))
            then KEY_RIGHT_ARROW else KEY_LEFT_ARROW]"
    and l: "lastReportedPos (fst (loop r s))
           = encoderPos (replay (irq_assign r) (replay (irq_compare r) s))"
    and e: "encoderPos (fst (loop r s))
           = encoderPos (replay (irq_assign r) (replay (irq_compare r) s))"
    by blast+
  have same: "lastReportedPos (fst (loop r s)) = encoderPos (fst (loop r s))"
    by (simp only: l e)
  have quiet: "arrows (keys_of (snd (loop r s))) =
                [if sint (lastReportedPos s) < sint (encoderPos s) then KEY_RIGHT_ARROW
                 else KEY_LEFT_ARROW]
              \<and> lastReportedPos (fst (loop r s)) = encoderPos s"
    if "encoderPos (replay (irq_compare r) s) = encoderPos s
          \<and> encoderPos (replay (irq_assign r) (replay (irq_compare r) s)) = encoderPos s"
    using that k l by presburger
  have all: "keys_of (snd fin) = [KEY_RIGHT_ARROW] \<and> settled (fst fin)
      \<and> encoderPos (fst fin) = of_nat (length xs)"
    unfolding assms(9) using assms(3-8) by (rule clockwise_steps_then_iterations)
  then have "settled (fst fin)"
    by blast
  then have "lastReportedPos (fst fin) = encoderPos (fst fin)"
    by (simp add: settled_def)
  with k l same quiet all show ?thesis
    by blast
qed

text \<open>
  The theorem on two clockwise steps (\<open>00 \<rightarrow> 01 \<rightarrow> 11\<close> at 2000 and 2010 ms) and two loop
  iterations at 2020 and 2030 ms with the link up. An iteration that is entered
  with position 2 and reported position 0, and during which the handler rejects a
  bounce at 2012 ms between the test and the comparison, writes the right arrow once
  and reports 2; the run as a whole writes that one key.
\<close>

theorem pending_steps_reported_by_one_key_witness:
  "legal_sequence 0 0 [(False, True, 2000), (True, True, 2010)]
   \<and> ccw_count 0 [(False, True, 2000), (True, True, 2010)] = 0
   \<and> encoderPos (replay [(False, True, 2000), (True, True, 2010)] booted) = 2
   \<and> lastReportedPos (replay [(False, True, 2000), (True, True, 2010)] booted) = 0
   \<and> encoderPos (replay [(True, False, 2012)]
        (replay [(False, True, 2000), (True, True, 2010)] booted)) = 2
   \<and> arrows (keys_of (snd (loop
        \<lparr>linked = True, millis_disc = 2020, millis_conn = 2020, millis_led = 2020,
         irq_compare = [(True, False, 2012)], irq_assign = [], millis_btn = 2020,
         pin_sw = HIGH\<rparr>
        (replay [(False, True, 2000), (True, True, 2010)] booted)))) = [KEY_RIGHT_ARROW]
   \<and> lastReportedPos (fst (loop
        \<lparr>linked = True, millis_disc = 2020, millis_conn = 2020, millis_led = 2020,
         irq_compare = [(True, False, 2012)], irq_assign = [], millis_btn = 2020,
         pin_sw = HIGH\<rparr>
        (replay [(False, True, 2000), (True, True, 2010)] booted))) = 2
   \<and> keys_of (snd (run (irqs [(False, True, 2000), (True, True, 2010)]
        @ [tick_at True 2020 HIGH, tick_at True 2030 HIGH]) booted)) = [KEY_RIGHT_ARROW]
   \<and> lastReportedPos (fst (run (irqs [(False, True, 2000), (True, True, 2010)]
        @ [tick_at True 2020 HIGH, tick_at True 2030 HIGH]) booted)) = 2"
proof -
  let ?xs = "[(False, True, 2000 :: millis), (True, True, 2010)]"
  let ?q = "\<lambda>t. \<lparr>linked = True, millis_disc = t, millis_conn = t, millis_led = t,
    irq_compare = [], irq_assign = [], millis_btn = t, pin_sw = HIGH\<rparr>"
  let ?r = "\<lparr>linked = True, millis_disc = 2020, millis_conn = 2020, millis_led = 2020,
    irq_compare = [(True, False, 2012)], irq_assign = [], millis_btn = 2020,
    pin_sw = HIGH\<rparr>"
  let ?rs = "[?q 2020, ?q 2030]"
  let ?s = "replay ?xs booted"
  have s: "?s = booted\<lparr>encoderPos := 2, lastEncoderEvent := 2010, old_AB := 3\<rparr>"
    by (simp add: booted_eq sketch_defs clockwise_def current_AB_simps)
  have bounce: "replay [(True, False, 2012)] ?s = ?s"
    unfolding s by (simp add: booted_eq sketch_defs)
  have h1: "connectionState (fst (updateConnectionState (linked ?r)
      (millis_disc ?r) (millis_conn ?r) ?s)) = CONNECTED"
    unfolding s by (simp add: booted_eq sketch_defs)
  have h2: "encoderPos ?s \<noteq> lastReportedPos ?s"
    unfolding s by (simp add: booted_eq initial_def)
  have h3: "legal_sequence 0 0 ?xs"
    by (simp add: spec_cw_def spec_ccw_def gray_cycle_def current_AB_simps encoderDebounceTime_def)
  have h4: "ccw_count 0 ?xs = 0"
    by (simp add: spec_cw_def spec_ccw_def gray_cycle_def current_AB_simps)
  have h5: "1 \<le> length ?xs" and h6: "length ?xs < 2 ^ 31" and h7: "length ?rs = length ?xs"
    by simp_all
  have h8: "list_all connected_quiet ?rs"
    by (simp add: connected_quiet_def)
  have b: "booted = fst (sketch_setup 100 initial)"
    by (simp add: booted_def)
  note inst = pending_steps_reported_by_one_key [OF h1 h2 h3 h4 h5 h6 h7 h8 refl, of 100]
  have p: "encoderPos ?s = 2" and l: "lastReportedPos ?s = 0"
    unfolding s by (simp_all add: booted_eq initial_def)
  have pb: "encoderPos (replay [(True, False, 2012)] ?s) = 2"
    unfolding bounce by (rule p)
  have unchanged: "encoderPos (replay (irq_compare ?r) ?s) = encoderPos ?s
      \<and> encoderPos (replay (irq_assign ?r) (replay (irq_compare ?r) ?s)) = encoderPos ?s"
    by (simp add: bounce del: replay.simps) (simp add: bounce)
  have "arrows (keys_of (snd (loop ?r ?s))) =
      [if sint (lastReportedPos ?s) < sint (encoderPos ?s) then KEY_RIGHT_ARROW
       else KEY_LEFT_ARROW]"
    using inst unchanged by blast
  then have k1: "arrows (keys_of (snd (loop ?r ?s))) = [KEY_RIGHT_ARROW]"
    unfolding p l by simp
  have "lastReportedPos (fst (loop ?r ?s)) = encoderPos ?s"
    using inst unchanged by blast
  then have l1: "lastReportedPos (fst (loop ?r ?s)) = 2"
    unfolding p .
  have ticks: "map Tick ?rs = [tick_at True 2020 HIGH, tick_at True 2030 HIGH]"
    by (simp add: tick_at_def)
  have k2: "keys_of (snd (run (irqs ?xs @ map Tick ?rs) booted)) = [KEY_RIGHT_ARROW]"
    unfolding b using inst by blast
  have "lastReportedPos (fst (run (irqs ?xs @ map Tick ?rs) booted)) = of_nat (length ?xs)"
    unfolding b using inst by presburger
  then have l2: "lastReportedPos (fst (run (irqs ?xs @ map Tick ?rs) booted)) = 2"
    by simp
  from h3 h4 p l pb k1 l1 k2 l2 show ?thesis
    unfolding ticks [symmetric] by blast
qed

text \<open>
  Two iterations in which an interrupt does change the position between the reads,
  from the state with position 1 and reported position 0 (one clockwise step at
  2000 ms). A step back, \<open>01 \<rightarrow> 00\<close> at 2010 ms, between the test and the comparison:
  the iteration writes the left arrow. A further step forward, \<open>01 \<rightarrow> 11\<close> at 2010 ms,
  between the comparison and the assignment: the iteration writes one right arrow
  and reports the position 2.
\<close>

lemma interrupt_between_reads:
  "keys_of (snd (loop
      \<lparr>linked = True, millis_disc = 2020, millis_conn = 2020, millis_led = 2020,
       irq_compare = [(False, False, 2010)], irq_assign = [], millis_btn = 2020,
       pin_sw = HIGH\<rparr>
      (replay [(False, True, 2000)] link_up))) = [KEY_LEFT_ARROW]
   \<and> keys_of (snd (loop
      \<lparr>linked = True, millis_disc = 2020, millis_conn = 2020, millis_led = 2020,
       irq_compare = [], irq_assign = [(True, True, 2010)], millis_btn = 2020,
       pin_sw = HIGH\<rparr>
      (replay [(False, True, 2000)] link_up))) = [KEY_RIGHT_ARROW]
   \<and> lastReportedPos (fst (loop
      \<lparr>linked = True, millis_disc = 2020, millis_conn = 2020, millis_led = 2020,
       irq_compare = [], irq_assign = [(True, True, 2010)], millis_btn = 2020,
       pin_sw = HIGH\<rparr>
      (replay [(False, True, 2000)] link_up))) = 2"
  by (simp add: link_up_eq sketch_defs clockwise_def counter_clockwise_def current_AB_simps)

text \<open>
  Claim C1, as the specification states it, fails for \<open>N = 2\<close>. Two accepted clockwise
  transitions followed by two loop iterations with the link up write one right
  arrow, not two, and the first iteration moves the reported position from 0 to 2,
  not to 1.
\<close>

theorem two_steps_one_key_counterexample:
  "legal_sequence 0 0 [(False, True, 2000), (True, True, 2010)]
   \<and> ccw_count 0 [(False, True, 2000), (True, True, 2010)] = 0
   \<and> keys_of (snd (run (irqs [(False, True, 2000), (True, True, 2010)]
        @ [tick_at True 2020 HIGH, tick_at True 2030 HIGH]) booted)) = [KEY_RIGHT_ARROW]
   \<and> length (filter (\<lambda>k. k = KEY_RIGHT_ARROW) (keys_of (snd (run
        (irqs [(False, True, 2000), (True, True, 2010)]
        @ [tick_at True 2020 HIGH, tick_at True 2030 HIGH]) booted)))) \<noteq> 2
   \<and> lastReportedPos (fst (run (irqs [(False, True, 2000), (True, True, 2010)]
        @ [tick_at True 2020 HIGH]) booted)) \<noteq> 1"
  by (simp add: irqs_def booted_eq sketch_defs clockwise_def current_AB_simps spec_cw_def
      spec_ccw_def gray_cycle_def)

end
